theory Spec2Isabelle
  imports Complex_Main "HOL-Library.AList" "HOL-Library.Log_Nat"
begin

section \<open>JavaScript values, as far as \<^verbatim>\<open>src/index.ts\<close> observes them\<close>

text \<open>
  The values that flow through the module at run time: tokens, the objects read back from the
  store and whatever the caller's \<^verbatim>\<open>requestRefresh\<close> resolves to. An object is the list of its
  own properties in insertion order. \<open>JNum r\<close> is the finite number whose value is \<open>r\<close>; the
  numbers that are not finite have constructors of their own.
\<close>

datatype jsval =
    JUndefined
  | JNull
  | JBool bool
  | JNum rat
  | JStr string
  | JArr "jsval list"
  | JObj "(string \<times> jsval) list"
  | JNaN
  | JInfinity
  | JMinusInfinity

type_synonym fields = "(string \<times> jsval) list"

text \<open>
  \<^verbatim>\<open>!!v\<close>: every value is truthy except undefined, null, false, 0, NaN and the empty string.
\<close>

fun truthy :: "jsval \<Rightarrow> bool" where
  "truthy JUndefined = False"
| "truthy JNull = False"
| "truthy (JBool b) = b"
| "truthy (JNum n) = (n \<noteq> 0)"
| "truthy (JStr s) = (s \<noteq> [])"
| "truthy (JArr xs) = True"
| "truthy (JObj fs) = True"
| "truthy JNaN = False"
| "truthy JInfinity = True"
| "truthy JMinusInfinity = True"

text \<open>\<^verbatim>\<open>typeof v === 'object'\<close> holds for objects, arrays and null.\<close>

fun typeof_object :: "jsval \<Rightarrow> bool" where
  "typeof_object JNull = True"
| "typeof_object (JArr xs) = True"
| "typeof_object (JObj fs) = True"
| "typeof_object v = False"

fun typeof_string :: "jsval \<Rightarrow> bool" where
  "typeof_string (JStr s) = True"
| "typeof_string v = False"

text \<open>
  \<^verbatim>\<open>v?.k\<close> for the property names the module reads (accessToken, refreshToken, exp): the
  property of an object, undefined on null, undefined, a primitive or an array. Without the
  question mark the read throws on null and on undefined; where the source has none, the
  definition that embeds it says so.
\<close>

fun get_prop :: "jsval \<Rightarrow> string \<Rightarrow> jsval" where
  "get_prop (JObj fs) k = (case map_of fs k of Some v \<Rightarrow> v | None \<Rightarrow> JUndefined)"
| "get_prop v k = JUndefined"

fun fields_of :: "jsval \<Rightarrow> fields" where
  "fields_of (JObj fs) = fs"
| "fields_of v = []"

text \<open>
  A thrown value: an Error object with its name, its message and what
  \<^verbatim>\<open>error?.response?.status\<close> reads from it (an HTTP client's error carries the response;
  None stands for undefined). What a promise is rejected with is taken to be such an object.
\<close>

datatype jserror = JsError (err_name: string) (err_message: string) (err_status: "int option")

definition new_Error :: "string \<Rightarrow> jserror" where
  "new_Error msg = JsError ''Error'' msg None"

text \<open>\<^verbatim>\<open>String(error)\<close>, which \<^verbatim>\<open>new Error(error)\<close> applies to its argument.\<close>

definition String_of_error :: "jserror \<Rightarrow> string" where
  "String_of_error e =
     (if err_name e = [] then err_message e
      else if err_message e = [] then err_name e
      else err_name e @ '': '' @ err_message e)"

section \<open>The token store\<close>

text \<open>
  AsyncStorage holds one string under \<^verbatim>\<open>STORAGE_KEY\<close>. The string is kept by what
  \<^verbatim>\<open>JSON.parse\<close> makes of it: \<open>Malformed\<close> text that does not parse (the empty string is
  such a text; \<^verbatim>\<open>getAuthTokens\<close> takes it for absent before parsing), or the \<open>Serialized\<close>
  text of an object (\<^verbatim>\<open>setAuthTokens\<close> writes \<^verbatim>\<open>JSON.stringify\<close> of an object, and reading
  it back gives the same properties). Storage operations themselves are taken to succeed.
\<close>

datatype raw = Malformed string | Serialized fields

type_synonym storage = "raw option"

definition setAuthTokens :: "fields \<Rightarrow> storage \<Rightarrow> storage" where
  "setAuthTokens tokens st = Some (Serialized tokens)"

definition clearAuthTokens :: "storage \<Rightarrow> storage" where
  "clearAuthTokens st = None"

definition getAuthTokens :: "storage \<Rightarrow> jserror + fields option" where
  "getAuthTokens st =
     (case st of
        None \<Rightarrow> Inr None
      | Some (Malformed rawTokens) \<Rightarrow>
          if rawTokens = [] then Inr None
          else Inl (JsError ''SyntaxError'' (''Failed to parse auth tokens: '' @ rawTokens) None)
      | Some (Serialized tokens) \<Rightarrow> Inr (Some tokens))"

definition getRefreshToken :: "storage \<Rightarrow> jserror + jsval" where
  "getRefreshToken st =
     (case getAuthTokens st of
        Inl e \<Rightarrow> Inl e
      | Inr None \<Rightarrow> Inr JUndefined
      | Inr (Some tokens) \<Rightarrow> Inr (get_prop (JObj tokens) ''refreshToken''))"

definition getAccessToken :: "storage \<Rightarrow> jserror + jsval" where
  "getAccessToken st =
     (case getAuthTokens st of
        Inl e \<Rightarrow> Inl e
      | Inr None \<Rightarrow> Inr JUndefined
      | Inr (Some tokens) \<Rightarrow> Inr (get_prop (JObj tokens) ''accessToken''))"

definition isLoggedIn :: "storage \<Rightarrow> jserror + bool" where
  "isLoggedIn st = (case getRefreshToken st of Inl e \<Rightarrow> Inl e | Inr token \<Rightarrow> Inr (truthy token))"

text \<open>
  \<^verbatim>\<open>setAccessToken\<close> in two parts: lines 43 to 48 (read the pair, fail if there is none,
  assign the field) and line 49 (write the pair back).
\<close>

definition with_accessToken :: "jsval \<Rightarrow> storage \<Rightarrow> jserror + fields" where
  "with_accessToken token st =
     (case getAuthTokens st of
        Inl e \<Rightarrow> Inl e
      | Inr None \<Rightarrow>
          Inl (new_Error
            ''Unable to update access token since there are not tokens currently stored'')
      | Inr (Some tokens) \<Rightarrow> Inr (AList.update ''accessToken'' token tokens))"

definition setAccessToken :: "jsval \<Rightarrow> storage \<Rightarrow> jserror + storage" where
  "setAccessToken token st =
     (case with_accessToken token st of
        Inl e \<Rightarrow> Inl e
      | Inr tokens \<Rightarrow> Inr (setAuthTokens tokens st))"

section \<open>Numbers\<close>

text \<open>
  A JavaScript number is an IEEE 754 double. A finite one is kept by its exact value, a
  rational (the two zeros are one value here; nothing in the module tells them apart). The
  result of an arithmetic operation is the exact result rounded to the nearest double, a tie
  going to the double whose last bit is even.
\<close>

datatype number = NaN | Infinity | MinusInfinity | Double rat

text \<open>The integer nearest to \<open>x\<close>, ties to even.\<close>

definition round_half_even :: "rat \<Rightarrow> int" where
  "round_half_even x =
     (let f = \<lfloor>x\<rfloor>; d = x - of_int f
      in if d < 1 / 2 then f else if 1 / 2 < d then f + 1 else if even f then f else f + 1)"

text \<open>For \<open>0 < x\<close>, the integer \<open>e\<close> with \<open>2 powi e \<le> x < 2 powi (e + 1)\<close>.\<close>

definition exponent :: "rat \<Rightarrow> int" where
  "exponent x =
     (if 1 \<le> x then bitlen \<lfloor>x\<rfloor> - 1
      else let k = bitlen \<lfloor>1 / x\<rfloor> - 1
           in if x * 2 ^ nat k = 1 then - k else - k - 1)"

text \<open>
  The doubles around \<open>x\<close> are the multiples of \<open>2 powi (e - 52)\<close>, where \<open>e\<close> is the exponent
  of \<open>x\<close> and at least -1022 (below that the doubles are subnormal, all multiples of
  \<open>2 powi (- 1074)\<close>). A result whose magnitude reaches \<open>2 ^ 1024\<close> overflows.
\<close>

definition nearest :: "rat \<Rightarrow> rat" where
  "nearest x =
     (if x = 0 then 0
      else let e = max (exponent \<bar>x\<bar>) (- 1022); u = 2 powi (e - 52)
           in of_int (round_half_even (x / u)) * u)"

definition round_double :: "rat \<Rightarrow> number" where
  "round_double x =
     (let y = nearest x
      in if 2 ^ 1024 \<le> y then Infinity
         else if y \<le> - (2 ^ 1024) then MinusInfinity
         else Double y)"

text \<open>\<^verbatim>\<open>a - b\<close> on numbers.\<close>

fun minus_number :: "number \<Rightarrow> number \<Rightarrow> number" where
  "minus_number (Double a) (Double b) = round_double (a - b)"
| "minus_number NaN b = NaN"
| "minus_number a NaN = NaN"
| "minus_number Infinity Infinity = NaN"
| "minus_number Infinity b = Infinity"
| "minus_number MinusInfinity MinusInfinity = NaN"
| "minus_number MinusInfinity b = MinusInfinity"
| "minus_number (Double a) Infinity = MinusInfinity"
| "minus_number (Double a) MinusInfinity = Infinity"

text \<open>\<^verbatim>\<open>!n\<close> and \<^verbatim>\<open>n <= c\<close> for a number \<open>n\<close> and a finite constant \<open>c\<close>.\<close>

fun not_number :: "number \<Rightarrow> bool" where
  "not_number NaN = True"
| "not_number (Double a) = (a = 0)"
| "not_number n = False"

fun number_le :: "number \<Rightarrow> rat \<Rightarrow> bool" where
  "number_le (Double a) c = (a \<le> c)"
| "number_le MinusInfinity c = True"
| "number_le n c = False"

section \<open>Expiry\<close>

text \<open>
  Two things come from outside the repository. \<^verbatim>\<open>jwtDecode\<close> is the package jwt-decode; it
  throws or returns the payload, which can be any JSON value (the cast at line 154 checks
  nothing at run time). And when the \<open>exp\<close> property is a string, an array or an object, the
  subtraction of line 170 first has the engine convert it to a number. The functions below take
  both as the parameter \<open>dec\<close>. \<open>now\<close> is \<^verbatim>\<open>Date.now()\<close>, in milliseconds.
\<close>

record decoder =
  decode :: "jsval \<Rightarrow> jserror + jsval"
  convert :: "jsval \<Rightarrow> number"

text \<open>What a value counts as when it is an operand of \<^verbatim>\<open>-\<close>.\<close>

fun ToNumber :: "decoder \<Rightarrow> jsval \<Rightarrow> number" where
  "ToNumber dec JUndefined = NaN"
| "ToNumber dec JNull = Double 0"
| "ToNumber dec (JBool b) = Double (if b then 1 else 0)"
| "ToNumber dec (JNum r) = Double r"
| "ToNumber dec JNaN = NaN"
| "ToNumber dec JInfinity = Infinity"
| "ToNumber dec JMinusInfinity = MinusInfinity"
| "ToNumber dec v = convert dec v"

definition EXPIRE_FUDGE :: rat where
  "EXPIRE_FUDGE = 10"

text \<open>
  Reading a property of null or of undefined throws a TypeError. Its message is the engine's;
  this is the wording of V8.
\<close>

definition cannot_read :: "jsval \<Rightarrow> jserror" where
  "cannot_read v =
     JsError ''TypeError''
       (''Cannot read properties of '' @ (if v = JNull then ''null'' else ''undefined'') @
        '' (reading 'exp')'')
       None"

text \<open>Line 156 reads \<^verbatim>\<open>decoded.exp\<close>, unguarded, and returns it whatever its type.\<close>

definition getTimestampFromToken :: "decoder \<Rightarrow> jsval \<Rightarrow> jserror + jsval" where
  "getTimestampFromToken dec token =
     (case decode dec token of
        Inl e \<Rightarrow> Inl e
      | Inr decoded \<Rightarrow>
          if decoded = JNull \<or> decoded = JUndefined then Inl (cannot_read decoded)
          else Inr (get_prop decoded ''exp''))"

definition getExpiresIn :: "decoder \<Rightarrow> int \<Rightarrow> jsval \<Rightarrow> jserror + number" where
  "getExpiresIn dec now token =
     (case getTimestampFromToken dec token of
        Inl e \<Rightarrow> Inl e
      | Inr expiration \<Rightarrow>
          if \<not> truthy expiration then Inr (Double (- 1))
          else Inr (minus_number (ToNumber dec expiration) (round_double (of_int now / 1000))))"

definition isTokenExpired :: "decoder \<Rightarrow> int \<Rightarrow> jsval \<Rightarrow> jserror + bool" where
  "isTokenExpired dec now token =
     (if \<not> truthy token then Inr True
      else case getExpiresIn dec now token of
             Inl e \<Rightarrow> Inl e
           | Inr expiresIn \<Rightarrow> Inr (not_number expiresIn \<or> number_le expiresIn EXPIRE_FUDGE))"

text \<open>
  The decoder of jwt-decode 3 (the version \<^verbatim>\<open>package.json\<close> asks for), by its documented
  contract, for concrete runs: the token must be a string whose second dot-separated segment
  decodes (base64url, then JSON) to the payload; anything else throws InvalidTokenError,
  whose message starts \<^verbatim>\<open>Invalid token specified\<close> (the detail the library appends is left
  out). Decoding a segment is the parameter \<open>decode_segment\<close>.
\<close>

fun split_dot :: "string \<Rightarrow> string list" where
  "split_dot [] = [[]]"
| "split_dot (c # cs) =
     (if c = CHR ''.'' then [] # split_dot cs
      else case split_dot cs of [] \<Rightarrow> [[c]] | s # ss \<Rightarrow> (c # s) # ss)"

definition InvalidTokenError :: jserror where
  "InvalidTokenError = JsError ''InvalidTokenError'' ''Invalid token specified'' None"

definition jwtDecode :: "(string \<Rightarrow> jsval option) \<Rightarrow> jsval \<Rightarrow> jserror + jsval" where
  "jwtDecode decode_segment token =
     (case token of
        JStr s \<Rightarrow>
          (case split_dot s of
             header # body # rest \<Rightarrow>
               (case decode_segment body of
                  Some decoded \<Rightarrow> Inr decoded
                | None \<Rightarrow> Inl InvalidTokenError)
           | _ \<Rightarrow> Inl InvalidTokenError)
      | _ \<Rightarrow> Inl InvalidTokenError)"

section \<open>Refreshing, one call at a time\<close>

text \<open>
  \<^verbatim>\<open>refreshToken\<close> and \<^verbatim>\<open>refreshTokenIfNeeded\<close> when nothing else runs between their
  awaits. \<open>requestRefresh\<close> maps the refresh token to what the caller's promise settles
  with: \<open>Inr\<close> the resolved value, \<open>Inl\<close> the rejection.
\<close>

type_synonym refresher = "jsval \<Rightarrow> jserror + jsval"

definition status_text :: "int \<Rightarrow> string" where
  "status_text status = (if status = 401 then ''401'' else ''422'')"

definition protocol_Error :: jserror where
  "protocol_Error =
     new_Error ''requestRefresh must either return a string or an object with an accessToken''"

text \<open>The catch block of \<^verbatim>\<open>refreshToken\<close> (lines 195 to 206).\<close>

definition refresh_failed :: "jserror \<Rightarrow> storage \<Rightarrow> storage \<times> (jserror + jsval)" where
  "refresh_failed error st =
     (case err_status error of
        Some status \<Rightarrow>
          if status = 401 \<or> status = 422
          then (None,
                Inl (new_Error (''Got '' @ status_text status @
                                 '' on token refresh; clearing both auth tokens'')))
          else (st, Inl (new_Error (String_of_error error)))
      | None \<Rightarrow> (st, Inl (new_Error (String_of_error error))))"

definition refreshToken :: "refresher \<Rightarrow> storage \<Rightarrow> storage \<times> (jserror + jsval)" where
  "refreshToken requestRefresh st =
     (case getRefreshToken st of
        Inl e \<Rightarrow> (st, Inl e)
      | Inr rtoken \<Rightarrow>
          if \<not> truthy rtoken then (st, Inl (new_Error ''No refresh token available''))
          else
            (case requestRefresh rtoken of
               Inl error \<Rightarrow> refresh_failed error st
             | Inr newTokens \<Rightarrow>
                 if typeof_object newTokens \<and> truthy (get_prop newTokens ''accessToken'')
                 then (setAuthTokens (fields_of newTokens) st, Inr (get_prop newTokens ''accessToken''))
                 else if typeof_string newTokens
                 then (case setAccessToken newTokens st of
                         Inl error \<Rightarrow> refresh_failed error st
                       | Inr st' \<Rightarrow> (st', Inr newTokens))
                 else refresh_failed protocol_Error st))"

definition refreshTokenIfNeeded ::
  "decoder \<Rightarrow> int \<Rightarrow> refresher \<Rightarrow> storage \<Rightarrow> storage \<times> (jserror + jsval)" where
  "refreshTokenIfNeeded dec now requestRefresh st =
     (case getAccessToken st of
        Inl e \<Rightarrow> (st, Inl e)
      | Inr accessToken \<Rightarrow>
          if \<not> truthy accessToken then refreshToken requestRefresh st
          else (case isTokenExpired dec now accessToken of
                  Inl e \<Rightarrow> (st, Inl e)
                | Inr expired \<Rightarrow>
                    if expired then refreshToken requestRefresh st
                    else (st, Inr accessToken)))"

section \<open>Concurrent calls\<close>

text \<open>
  JavaScript runs one task at a time and switches only at an \<^verbatim>\<open>await\<close>. A call is therefore
  a state machine whose states are its awaits; one step runs the code between two awaits
  without interruption. An await on the store has two phases: AsyncStorage performs the
  operation, and later the caller resumes with its result; other calls may run in between.
  Awaits that only hand a value from one async function to its caller touch no shared state
  and are not steps of their own, except the interceptor's await of
  \<^verbatim>\<open>refreshTokenIfNeeded\<close> (line 251): what follows it releases the queue and clears the
  flag.
\<close>

datatype storage_op = GetItem | SetItem fields | RemoveItem

fun perform :: "storage_op \<Rightarrow> storage \<Rightarrow> storage" where
  "perform GetItem st = st"
| "perform (SetItem tokens) st = setAuthTokens tokens st"
| "perform RemoveItem st = None"

fun result_of :: "storage_op \<Rightarrow> storage \<Rightarrow> storage" where
  "result_of GetItem st = st"
| "result_of (SetItem tokens) st = None"
| "result_of RemoveItem st = None"

text \<open>
  The awaits on the store inside \<^verbatim>\<open>refreshTokenIfNeeded\<close>: \<^verbatim>\<open>getAccessToken\<close> (line 93),
  \<^verbatim>\<open>getRefreshToken\<close> (line 180), \<^verbatim>\<open>setAuthTokens\<close> (line 187, carrying the token to
  return), the read and the write of \<^verbatim>\<open>setAccessToken\<close> (lines 43 and 49, called at line
  190), and \<^verbatim>\<open>removeItem\<close> (line 200, carrying the status). A call is waiting for the store
  to perform an operation, has its result and is about to resume, waits for
  \<^verbatim>\<open>requestRefresh\<close> (line 185), or has finished.
\<close>

datatype label =
    L_getAccessToken
  | L_getRefreshToken
  | L_setAuthTokens jsval
  | L_setAccessToken_get jsval
  | L_setAccessToken_set jsval
  | L_removeItem int

datatype rstate =
    AwaitStorage storage_op label
  | StorageDone storage label
  | AwaitCallback jsval
  | Finished "jserror + jsval"

text \<open>The catch block of \<^verbatim>\<open>refreshToken\<close>, up to its await.\<close>

definition after_failure :: "jserror \<Rightarrow> rstate" where
  "after_failure error =
     (case err_status error of
        Some status \<Rightarrow>
          if status = 401 \<or> status = 422 then AwaitStorage RemoveItem (L_removeItem status)
          else Finished (Inl (new_Error (String_of_error error)))
      | None \<Rightarrow> Finished (Inl (new_Error (String_of_error error))))"

text \<open>Lines 185 to 194, entered when the promise of \<^verbatim>\<open>requestRefresh\<close> settles.\<close>

definition after_callback :: "jserror + jsval \<Rightarrow> rstate" where
  "after_callback outcome =
     (case outcome of
        Inl error \<Rightarrow> after_failure error
      | Inr newTokens \<Rightarrow>
          if typeof_object newTokens \<and> truthy (get_prop newTokens ''accessToken'')
          then AwaitStorage (SetItem (fields_of newTokens))
                 (L_setAuthTokens (get_prop newTokens ''accessToken''))
          else if typeof_string newTokens
          then AwaitStorage GetItem (L_setAccessToken_get newTokens)
          else after_failure protocol_Error)"

text \<open>Resuming after a store operation that returned \<open>r\<close>.\<close>

fun resume :: "decoder \<Rightarrow> int \<Rightarrow> label \<Rightarrow> storage \<Rightarrow> rstate" where
  "resume dec now L_getAccessToken r =
     (case getAccessToken r of
        Inl e \<Rightarrow> Finished (Inl e)
      | Inr accessToken \<Rightarrow>
          if \<not> truthy accessToken then AwaitStorage GetItem L_getRefreshToken
          else (case isTokenExpired dec now accessToken of
                  Inl e \<Rightarrow> Finished (Inl e)
                | Inr expired \<Rightarrow>
                    if expired then AwaitStorage GetItem L_getRefreshToken
                    else Finished (Inr accessToken)))"
| "resume dec now L_getRefreshToken r =
     (case getRefreshToken r of
        Inl e \<Rightarrow> Finished (Inl e)
      | Inr rtoken \<Rightarrow>
          if \<not> truthy rtoken then Finished (Inl (new_Error ''No refresh token available''))
          else AwaitCallback rtoken)"
| "resume dec now (L_setAuthTokens accessToken) r = Finished (Inr accessToken)"
| "resume dec now (L_setAccessToken_get token) r =
     (case with_accessToken token r of
        Inl error \<Rightarrow> after_failure error
      | Inr tokens \<Rightarrow> AwaitStorage (SetItem tokens) (L_setAccessToken_set token))"
| "resume dec now (L_setAccessToken_set token) r = Finished (Inr token)"
| "resume dec now (L_removeItem status) r =
     Finished (Inl (new_Error (''Got '' @ status_text status @
                                '' on token refresh; clearing both auth tokens'')))"

subsection \<open>The interceptor\<close>

record request =
  url :: string
  headers :: "(string \<times> string) list"

text \<open>
  What the interceptor is configured with and what the engine supplies: the decoder, the
  header name and prefix, \<^verbatim>\<open>String(v)\<close> for a token that is not a string, and the reason
  that \<^verbatim>\<open>.catch(Promise.reject)\<close> rejects with when the queued promise was rejected with
  \<open>e\<close> (the handler is called without a receiver, so the reason depends on the Promise
  implementation).
\<close>

record env =
  jwt :: decoder
  header :: string
  headerPrefix :: string
  string_of :: "jsval \<Rightarrow> string"
  reject_handler :: "jserror \<Rightarrow> jserror"

definition template :: "env \<Rightarrow> jsval \<Rightarrow> string" where
  "template env token =
     headerPrefix env @ (case token of JStr s \<Rightarrow> s | _ \<Rightarrow> string_of env token)"

definition with_token :: "env \<Rightarrow> request \<Rightarrow> jsval \<Rightarrow> request" where
  "with_token env requestConfig token =
     requestConfig\<lparr>headers := AList.update (header env) (template env token) (headers requestConfig)\<rparr>"

text \<open>
  Where a call of the interceptor (the function that \<^verbatim>\<open>authTokenInterceptor\<close> returns, lines
  230 to 263) stands: \<open>Reading\<close> and \<open>Read\<close> are the two phases of the
  await of \<^verbatim>\<open>getRefreshToken\<close> (line 232); \<open>Refreshing\<close> is the await of
  \<^verbatim>\<open>refreshTokenIfNeeded\<close> inside the try block (line 251), with the state of that inner
  call; \<open>Queued\<close> is the await of the promise whose \<^verbatim>\<open>resolve\<close> and \<^verbatim>\<open>reject\<close> were pushed
  on the queue (lines 237 to 239); \<open>Released\<close> means that promise has been settled and its
  \<^verbatim>\<open>then\<close> or \<^verbatim>\<open>catch\<close> handler has yet to run (lines 240 to 244); \<open>Settled\<close> is the end,
  the interceptor's own promise resolved with the request or rejected. A \<open>Direct\<close> task is a
  call of \<^verbatim>\<open>refreshTokenIfNeeded\<close> made by the application itself.
\<close>

datatype istate =
    Reading
  | Read storage
  | Refreshing rstate
  | Queued
  | Released "jserror + jsval"
  | Settled "jserror + request"

datatype task = Interceptor request istate | Direct rstate

text \<open>
  The module's state: the store, the two module variables, the calls in progress (a call is
  named by its position), and a log of the invocations of \<^verbatim>\<open>requestRefresh\<close>. An entry of
  the queue is the \<^verbatim>\<open>{resolve, reject}\<close> pair of the call it names.
\<close>

record system =
  storage :: storage
  isRefreshing :: bool
  queue :: "nat list"
  tasks :: "task list"
  calls :: "(nat \<times> jsval) list"

definition initial :: "storage \<Rightarrow> system" where
  "initial st = \<lparr>storage = st, isRefreshing = False, queue = [], tasks = [], calls = []\<rparr>"

text \<open>
  \<^verbatim>\<open>resolveQueue\<close> and \<^verbatim>\<open>declineQueue\<close>: \<^verbatim>\<open>forEach\<close> over the queue, settling each entry's
  promise, then the queue is replaced by an empty one.
\<close>

fun settle_queued :: "jserror + jsval \<Rightarrow> task \<Rightarrow> task" where
  "settle_queued r (Interceptor c Queued) = Interceptor c (Released r)"
| "settle_queued r t = t"

definition release :: "jserror + jsval \<Rightarrow> nat list \<Rightarrow> task list \<Rightarrow> task list" where
  "release r q ts = fold (\<lambda>p ts. ts[p := settle_queued r (ts ! p)]) q ts"

definition resolveQueue :: "jsval \<Rightarrow> system \<Rightarrow> system" where
  "resolveQueue token s = s\<lparr>tasks := release (Inr token) (queue s) (tasks s), queue := []\<rparr>"

definition declineQueue :: "jserror \<Rightarrow> system \<Rightarrow> system" where
  "declineQueue error s = s\<lparr>tasks := release (Inl error) (queue s) (tasks s), queue := []\<rparr>"

definition set_task :: "nat \<Rightarrow> task \<Rightarrow> system \<Rightarrow> system" where
  "set_task i t s = s\<lparr>tasks := (tasks s)[i := t]\<rparr>"

text \<open>Reaching the await of \<^verbatim>\<open>requestRefresh(refreshToken)\<close> is the invocation.\<close>

fun log_call :: "nat \<Rightarrow> rstate \<Rightarrow> system \<Rightarrow> system" where
  "log_call i (AwaitCallback rtoken) s = s\<lparr>calls := calls s @ [(i, rtoken)]\<rparr>"
| "log_call i rs s = s"

definition refresh_Error :: "jserror \<Rightarrow> jserror" where
  "refresh_Error error =
     new_Error (''Unable to refresh access token for request due to token refresh error: '' @
                err_message error)"

text \<open>
  The steps of call \<open>i\<close>. \<open>storage_done\<close>: AsyncStorage performs the operation the call waits
  for. \<open>resume_task\<close>: the call runs on to its next await; for the interceptor this is lines
  233 to 251 after the refresh token was read, lines 252 to 262 once
  \<^verbatim>\<open>refreshTokenIfNeeded\<close> has finished, and the handlers of lines 240 to 244 for a released
  waiter. \<open>callback_settled\<close>: the promise of \<^verbatim>\<open>requestRefresh\<close> settles and the call runs on.
  A step that the call is not ready for is \<open>None\<close>.
\<close>

fun storage_done :: "nat \<Rightarrow> task \<Rightarrow> system \<Rightarrow> system option" where
  "storage_done i (Interceptor c Reading) s = Some (set_task i (Interceptor c (Read (storage s))) s)"
| "storage_done i (Interceptor c (Refreshing (AwaitStorage op l))) s =
     Some (set_task i (Interceptor c (Refreshing (StorageDone (result_of op (storage s)) l)))
             (s\<lparr>storage := perform op (storage s)\<rparr>))"
| "storage_done i (Direct (AwaitStorage op l)) s =
     Some (set_task i (Direct (StorageDone (result_of op (storage s)) l))
             (s\<lparr>storage := perform op (storage s)\<rparr>))"
| "storage_done i t s = None"

fun resume_task :: "env \<Rightarrow> int \<Rightarrow> nat \<Rightarrow> task \<Rightarrow> system \<Rightarrow> system option" where
  "resume_task env now i (Interceptor c (Read r)) s =
     (case getRefreshToken r of
        Inl e \<Rightarrow> Some (set_task i (Interceptor c (Settled (Inl e))) s)
      | Inr rtoken \<Rightarrow>
          if \<not> truthy rtoken then Some (set_task i (Interceptor c (Settled (Inr c))) s)
          else if isRefreshing s
          then Some (set_task i (Interceptor c Queued) (s\<lparr>queue := queue s @ [i]\<rparr>))
          else Some (set_task i
                       (Interceptor c (Refreshing (AwaitStorage GetItem L_getAccessToken)))
                       (s\<lparr>isRefreshing := True\<rparr>)))"
| "resume_task env now i (Interceptor c (Refreshing (StorageDone r l))) s =
     Some (log_call i (resume (jwt env) now l r)
             (set_task i (Interceptor c (Refreshing (resume (jwt env) now l r))) s))"
| "resume_task env now i (Interceptor c (Refreshing (Finished (Inr accessToken)))) s =
     Some (set_task i
             (Interceptor c
                (Settled (Inr (if truthy accessToken then with_token env c accessToken else c))))
             ((resolveQueue accessToken s)\<lparr>isRefreshing := False\<rparr>))"
| "resume_task env now i (Interceptor c (Refreshing (Finished (Inl error)))) s =
     Some (set_task i (Interceptor c (Settled (Inl (refresh_Error error))))
             ((declineQueue error s)\<lparr>isRefreshing := False\<rparr>))"
| "resume_task env now i (Interceptor c (Released (Inr token))) s =
     Some (set_task i (Interceptor c (Settled (Inr (with_token env c token)))) s)"
| "resume_task env now i (Interceptor c (Released (Inl e))) s =
     Some (set_task i (Interceptor c (Settled (Inl (reject_handler env e)))) s)"
| "resume_task env now i (Direct (StorageDone r l)) s =
     Some (log_call i (resume (jwt env) now l r)
             (set_task i (Direct (resume (jwt env) now l r)) s))"
| "resume_task env now i t s = None"

fun callback_settled :: "jserror + jsval \<Rightarrow> nat \<Rightarrow> task \<Rightarrow> system \<Rightarrow> system option" where
  "callback_settled outcome i (Interceptor c (Refreshing (AwaitCallback rtoken))) s =
     Some (set_task i (Interceptor c (Refreshing (after_callback outcome))) s)"
| "callback_settled outcome i (Direct (AwaitCallback rtoken)) s =
     Some (set_task i (Direct (after_callback outcome)) s)"
| "callback_settled outcome i t s = None"

text \<open>
  What can happen next: a request reaches the interceptor, the application calls an exported
  operation, AsyncStorage finishes the operation a call waits for, a call resumes (at clock
  reading \<open>now\<close>), or the promise of \<^verbatim>\<open>requestRefresh\<close> settles.
\<close>

datatype event =
    Request request
  | Call_refreshTokenIfNeeded
  | App_setAuthTokens fields
  | App_clearAuthTokens
  | Storage_done nat
  | Resume nat int
  | Callback nat "jserror + jsval"

fun step :: "env \<Rightarrow> system \<Rightarrow> event \<Rightarrow> system option" where
  "step env s (Request c) = Some (s\<lparr>tasks := tasks s @ [Interceptor c Reading]\<rparr>)"
| "step env s Call_refreshTokenIfNeeded =
     Some (s\<lparr>tasks := tasks s @ [Direct (AwaitStorage GetItem L_getAccessToken)]\<rparr>)"
| "step env s (App_setAuthTokens tokens) = Some (s\<lparr>storage := setAuthTokens tokens (storage s)\<rparr>)"
| "step env s App_clearAuthTokens = Some (s\<lparr>storage := clearAuthTokens (storage s)\<rparr>)"
| "step env s (Storage_done i) =
     (if i < length (tasks s) then storage_done i (tasks s ! i) s else None)"
| "step env s (Resume i now) =
     (if i < length (tasks s) then resume_task env now i (tasks s ! i) s else None)"
| "step env s (Callback i outcome) =
     (if i < length (tasks s) then callback_settled outcome i (tasks s ! i) s else None)"

fun run :: "env \<Rightarrow> system \<Rightarrow> event list \<Rightarrow> system option" where
  "run env s [] = Some s"
| "run env s (ev # evs) = (case step env s ev of None \<Rightarrow> None | Some s' \<Rightarrow> run env s' evs)"

subsection \<open>One call on its own\<close>

text \<open>
  The machine of \<^verbatim>\<open>refreshTokenIfNeeded\<close> run with nothing else in between, for at most \<open>n\<close>
  steps: each store operation is performed and resumed at once, and the callback settles
  with \<open>requestRefresh\<close> of the refresh token.
\<close>

fun solo :: "decoder \<Rightarrow> int \<Rightarrow> refresher \<Rightarrow> nat \<Rightarrow> rstate \<Rightarrow> storage \<Rightarrow> storage \<times> rstate" where
  "solo dec now requestRefresh 0 rs st = (st, rs)"
| "solo dec now requestRefresh (Suc n) (AwaitStorage op l) st =
     solo dec now requestRefresh n (StorageDone (result_of op st) l) (perform op st)"
| "solo dec now requestRefresh (Suc n) (StorageDone r l) st =
     solo dec now requestRefresh n (resume dec now l r) st"
| "solo dec now requestRefresh (Suc n) (AwaitCallback rtoken) st =
     solo dec now requestRefresh n (after_callback (requestRefresh rtoken)) st"
| "solo dec now requestRefresh (Suc n) (Finished res) st = (st, Finished res)"

section \<open>Invariants of the coordinator state\<close>

text \<open>
  A call leads while it is between line 250 and the end of the finally block; it is queued
  while its \<^verbatim>\<open>{resolve, reject}\<close> pair sits in the queue.
\<close>

fun leading :: "task \<Rightarrow> bool" where
  "leading (Interceptor c (Refreshing rs)) = True"
| "leading t = False"

fun queued :: "task \<Rightarrow> bool" where
  "queued (Interceptor c Queued) = True"
| "queued t = False"

definition coordinated :: "system \<Rightarrow> bool" where
  "coordinated s \<longleftrightarrow>
     length (filter leading (tasks s)) = (if isRefreshing s then 1 else 0) \<and>
     distinct (queue s) \<and>
     set (queue s) = {i. i < length (tasks s) \<and> queued (tasks s ! i)} \<and>
     (\<not> isRefreshing s \<longrightarrow> queue s = [])"

text \<open>
  How often a call has invoked \<^verbatim>\<open>requestRefresh\<close>, by where it stands: not yet before the
  await of line 185, once after it; a finished call may or may not have refreshed.
\<close>

fun made :: "label \<Rightarrow> nat" where
  "made L_getAccessToken = 0"
| "made L_getRefreshToken = 0"
| "made l = 1"

fun calls_lo :: "rstate \<Rightarrow> nat" where
  "calls_lo (AwaitStorage op l) = made l"
| "calls_lo (StorageDone r l) = made l"
| "calls_lo (AwaitCallback rtoken) = 1"
| "calls_lo (Finished res) = 0"

fun calls_hi :: "rstate \<Rightarrow> nat" where
  "calls_hi (AwaitStorage op l) = made l"
| "calls_hi (StorageDone r l) = made l"
| "calls_hi (AwaitCallback rtoken) = 1"
| "calls_hi (Finished res) = 1"

fun task_lo :: "task \<Rightarrow> nat" where
  "task_lo (Interceptor c (Refreshing rs)) = calls_lo rs"
| "task_lo (Direct rs) = calls_lo rs"
| "task_lo t = 0"

fun task_hi :: "task \<Rightarrow> nat" where
  "task_hi (Interceptor c (Refreshing rs)) = calls_hi rs"
| "task_hi (Direct rs) = calls_hi rs"
| "task_hi (Interceptor c (Settled res)) = 1"
| "task_hi t = 0"

definition invocations :: "system \<Rightarrow> nat \<Rightarrow> nat" where
  "invocations s i = length (filter (\<lambda>p. fst p = i) (calls s))"

definition accounted :: "system \<Rightarrow> bool" where
  "accounted s \<longleftrightarrow>
     (\<forall>i. if i < length (tasks s)
          then task_lo (tasks s ! i) \<le> invocations s i \<and> invocations s i \<le> task_hi (tasks s ! i)
          else invocations s i = 0)"

section \<open>Sample data for concrete runs\<close>

text \<open>
  Token bodies with known payloads; every other segment fails to decode. The clock of the
  sample runs reads 1000000 ms, so \<open>fresh\<close> has 1000 seconds left and \<open>stale\<close> expired 100
  seconds ago. \<open>bnVsbA\<close> is the base64 text of \<^verbatim>\<open>null\<close>. The payload of \<open>close\<close> is
  \<^verbatim>\<open>{"exp":1700000010.002}\<close>; the number is the double that this literal denotes. The
  payload of \<open>text\<close> is \<^verbatim>\<open>{"exp":"soon"}\<close>, the only \<open>exp\<close> of the samples that the engine
  has to convert; that text is no numeric literal, so it converts to NaN.
\<close>

definition sample_segments :: "string \<Rightarrow> jsval option" where
  "sample_segments seg =
     (if seg = ''fresh'' then Some (JObj [(''exp'', JNum 2000)])
      else if seg = ''stale'' then Some (JObj [(''exp'', JNum 900)])
      else if seg = ''noexp'' then Some (JObj [(''iat'', JNum 1)])
      else if seg = ''close'' then Some (JObj [(''exp'', JNum (7130316841951429 / 4194304))])
      else if seg = ''text'' then Some (JObj [(''exp'', JStr ''soon'')])
      else if seg = ''bnVsbA'' then Some JNull
      else None)"

definition sample_jwt :: decoder where
  "sample_jwt = \<lparr>decode = jwtDecode sample_segments, convert = (\<lambda>v. NaN)\<rparr>"

definition stale_pair :: storage where
  "stale_pair =
     Some (Serialized [(''accessToken'', JStr ''h.stale.s''), (''refreshToken'', JStr ''r1'')])"

definition sample_env :: env where
  "sample_env =
     \<lparr>jwt = sample_jwt, header = ''Authorization'', headerPrefix = ''Bearer '',
      string_of = (\<lambda>v. ''[object Object]''), reject_handler = (\<lambda>e. e)\<rparr>"

definition request_a :: request where
  "request_a = \<lparr>url = ''/a'', headers = []\<rparr>"

definition request_b :: request where
  "request_b = \<lparr>url = ''/b'', headers = [(''Accept'', ''application/json'')]\<rparr>"

definition request_c :: request where
  "request_c = \<lparr>url = ''/c'', headers = []\<rparr>"

definition network_Error :: jserror where
  "network_Error = JsError ''Error'' ''Network Error'' None"

definition unauthorized_Error :: jserror where
  "unauthorized_Error = JsError ''Error'' ''Request failed with status code 401'' (Some 401)"

text \<open>
  A sample run: three requests reach the interceptor while the stored access token is stale.
  The first becomes the refreshing call and invokes \<^verbatim>\<open>requestRefresh\<close>; the other two find the
  flag set and are queued. In \<open>success\<close> the callback resolves to a bare token, which is
  stored.
\<close>

definition arrivals :: "event list" where
  "arrivals =
     [Request request_a, Request request_b, Request request_c,
      Storage_done 0, Resume 0 1000000,
      Storage_done 0, Resume 0 1000000,
      Storage_done 0, Resume 0 1000000,
      Storage_done 1, Resume 1 1000000,
      Storage_done 2, Resume 2 1000000]"

definition success :: "event list" where
  "success =
     [Callback 0 (Inr (JStr ''new-token'')),
      Storage_done 0, Resume 0 1000000,
      Storage_done 0, Resume 0 1000000]"

definition new_pair :: storage where
  "new_pair =
     Some (Serialized [(''accessToken'', JStr ''new-token''), (''refreshToken'', JStr ''r1'')])"

definition sample_state :: "storage \<Rightarrow> bool \<Rightarrow> nat list \<Rightarrow> istate \<Rightarrow> istate \<Rightarrow> istate \<Rightarrow> system" where
  "sample_state st flag q a b c =
     \<lparr>storage = st, isRefreshing = flag, queue = q,
      tasks = [Interceptor request_a a, Interceptor request_b b, Interceptor request_c c],
      calls = [(0, JStr ''r1'')]\<rparr>"

text \<open>
  In \<open>failure\<close> the callback is rejected with a network error instead, and all three calls
  run to their end. In \<open>two_direct_calls\<close> the application calls \<^verbatim>\<open>refreshTokenIfNeeded\<close>
  twice, outside the interceptor.
\<close>

definition failure :: "event list" where
  "failure = [Callback 0 (Inl network_Error), Resume 0 1000000, Resume 1 1000000, Resume 2 1000000]"

definition two_direct_calls :: "event list" where
  "two_direct_calls =
     [Call_refreshTokenIfNeeded, Call_refreshTokenIfNeeded,
      Storage_done 0, Resume 0 1000000, Storage_done 0, Resume 0 1000000,
      Storage_done 1, Resume 1 1000000, Storage_done 1, Resume 1 1000000]"

text \<open>
  The rejection handler of line 244 is \<^verbatim>\<open>Promise.reject\<close> itself, so it is called without a
  receiver. \<^verbatim>\<open>Promise.reject\<close> as ECMA-262 defines it takes its receiver for the constructor
  of the promise to return and throws a TypeError when it has none, and the promise that
  \<^verbatim>\<open>catch\<close> returned is then rejected with that TypeError (the message is V8's). The
  handler of \<open>sample_env\<close> is that of an implementation that ignores its receiver.
\<close>

definition Promise_reject_unbound :: "jserror \<Rightarrow> jserror" where
  "Promise_reject_unbound e = JsError ''TypeError'' ''PromiseReject called on non-object'' None"

definition standard_env :: env where
  "standard_env = sample_env\<lparr>reject_handler := Promise_reject_unbound\<rparr>"

section \<open>Rounding to the nearest double\<close>



lemma round_half_even_of_int [simp]: "round_half_even (of_int n) = n"
  by (simp add: round_half_even_def)

lemma round_half_even_le: "t \<le> of_int n \<Longrightarrow> round_half_even t \<le> n"
proof -
  assume t: "t \<le> of_int n"
  show ?thesis
  proof (cases "t = of_int n")
    case True
    then show ?thesis by simp
  next
    case False
    with t have lt: "t < of_int n" by simp
    then have fl: "\<lfloor>t\<rfloor> < n" by (simp add: floor_less_iff)
    show ?thesis
    proof (cases "\<lfloor>t\<rfloor> + 1 = n")
      case True
      with lt have "t - of_int \<lfloor>t\<rfloor> < 1" by linarith
      with True fl show ?thesis by (auto simp: round_half_even_def Let_def)
    next
      case False
      with fl have "\<lfloor>t\<rfloor> + 1 < n" by simp
      then show ?thesis by (auto simp: round_half_even_def Let_def)
    qed
  qed
qed

lemma round_half_even_ge: "of_int n \<le> t \<Longrightarrow> n \<le> round_half_even t"
proof -
  assume "of_int n \<le> t"
  then have "n \<le> \<lfloor>t\<rfloor>" by (simp add: le_floor_iff)
  then show ?thesis by (auto simp: round_half_even_def Let_def)
qed

lemma powi_less_imp: "(2 :: rat) powi m < 2 powi n \<Longrightarrow> m < n"
  using power_int_increasing [of n m "2 :: rat"] by (cases "m < n") simp_all

lemma exponent_less:
  assumes "0 < x" and "x < 2 powi n"
  shows "exponent x < n"
proof (cases "1 \<le> x")
  case True
  then have pos: "0 < \<lfloor>x\<rfloor>" by linarith
  let ?e = "bitlen \<lfloor>x\<rfloor> - 1"
  from pos have e0: "0 \<le> ?e" by (auto simp: bitlen_alt_def)
  from bitlen_bounds [OF pos] have "2 ^ nat ?e \<le> \<lfloor>x\<rfloor>" by simp
  then have "(of_int (2 ^ nat ?e) :: rat) \<le> of_int \<lfloor>x\<rfloor>" by (simp only: of_int_le_iff)
  then have "(2 :: rat) ^ nat ?e \<le> x" by (simp add: le_floor_iff)
  with e0 have "(2 :: rat) powi ?e \<le> x" by (simp add: power_int_def)
  with assms(2) have "(2 :: rat) powi ?e < 2 powi n" by simp
  then have "?e < n" by (rule powi_less_imp)
  with True show ?thesis by (simp add: exponent_def)
next
  case False
  with assms(1) have inv: "1 < 1 / x" by simp
  then have pos: "0 < \<lfloor>1 / x\<rfloor>" by linarith
  let ?k = "bitlen \<lfloor>1 / x\<rfloor> - 1"
  from pos have k0: "0 \<le> ?k" by (auto simp: bitlen_alt_def)
  have "\<lfloor>1 / x\<rfloor> < 2 ^ nat (bitlen \<lfloor>1 / x\<rfloor>)" using bitlen_bounds [OF pos] by simp
  then have "\<lfloor>1 / x\<rfloor> < 2 ^ nat (?k + 1)" by simp
  then have "1 / x < of_int (2 ^ nat (?k + 1))" by (simp only: floor_less_iff)
  then have "1 / x < 2 ^ nat (?k + 1)" by simp
  with assms(1) have "1 < x * 2 ^ nat (?k + 1)" by (simp add: field_simps)
  then have "1 / 2 ^ nat (?k + 1) < x" by (simp add: field_simps)
  moreover from k0 have "(2 :: rat) powi (- ?k - 1) = 1 / 2 ^ nat (?k + 1)"
    by (simp add: power_int_def nat_add_distrib field_simps)
  ultimately have low: "(2 :: rat) powi (- ?k - 1) < x" by simp
  show ?thesis
  proof (cases "x * 2 ^ nat ?k = 1")
    case True
    then have "x = 1 / 2 ^ nat ?k" by (simp add: field_simps)
    also from k0 have "\<dots> = 2 powi (- ?k)" by (simp add: power_int_def field_simps)
    finally have "x = 2 powi (- ?k)" .
    with assms(2) have "(2 :: rat) powi (- ?k) < 2 powi n" by simp
    then have "- ?k < n" by (rule powi_less_imp)
    with False True show ?thesis by (simp add: exponent_def Let_def)
  next
    case ne: False
    from low assms(2) have "(2 :: rat) powi (- ?k - 1) < 2 powi n" by simp
    then have "- ?k - 1 < n" by (rule powi_less_imp)
    with False ne show ?thesis by (simp add: exponent_def Let_def)
  qed
qed



lemma unit_bounds:
  assumes "x \<noteq> 0" and "\<bar>x\<bar> < 2 powi (n + 1)" and "- 1022 \<le> n"
  shows "max (exponent \<bar>x\<bar>) (- 1022) \<le> n"
  using exponent_less [of "\<bar>x\<bar>" "n + 1"] assms by simp

lemma nearest_unit:
  assumes "x \<noteq> 0"
  shows "nearest x =
    of_int (round_half_even (x / 2 powi (max (exponent \<bar>x\<bar>) (- 1022) - 52))) *
      2 powi (max (exponent \<bar>x\<bar>) (- 1022) - 52)"
  using assms by (simp add: nearest_def Let_def)


lemma nearest_le:
  assumes "x \<le> of_int m * 2 powi q" and "\<bar>x\<bar> < 2 powi (q + 53)" and "- 1074 \<le> q"
  shows "nearest x \<le> of_int m * 2 powi q"
proof (cases "x = 0")
  case True
  with assms(1) show ?thesis by (simp add: nearest_def)
next
  case False
  define e where "e = max (exponent \<bar>x\<bar>) (- 1022)"
  define u :: rat where "u = 2 powi (e - 52)"
  have u0: "0 < u" by (simp add: u_def)
  from assms(2) have "\<bar>x\<bar> < 2 powi (q + 52 + 1)" by (simp add: algebra_simps)
  from unit_bounds [OF False this] assms(3) have "e \<le> q + 52" by (simp add: e_def)
  then have q: "0 \<le> q - (e - 52)" by simp
  have "(2 :: rat) powi q = 2 powi (q - (e - 52)) * 2 powi (e - 52)"
    using power_int_add [of "2 :: rat" "q - (e - 52)" "e - 52"] by simp
  also from q have "(2 :: rat) powi (q - (e - 52)) = of_int (2 ^ nat (q - (e - 52)))"
    by (simp add: power_int_def)
  finally have f: "of_int m * 2 powi q = of_int (m * 2 ^ nat (q - (e - 52))) * u"
    by (simp add: u_def)
  have n: "nearest x = of_int (round_half_even (x / u)) * u"
    using nearest_unit [OF False] by (simp add: e_def u_def)
  from assms(1) f u0 have "x / u \<le> of_int (m * 2 ^ nat (q - (e - 52)))"
    by (simp add: field_simps)
  then have "round_half_even (x / u) \<le> m * 2 ^ nat (q - (e - 52))" by (rule round_half_even_le)
  then have "(of_int (round_half_even (x / u)) :: rat) \<le> of_int (m * 2 ^ nat (q - (e - 52)))"
    by (simp only: of_int_le_iff)
  then have "of_int (round_half_even (x / u)) * u \<le> of_int (m * 2 ^ nat (q - (e - 52))) * u"
    using u0 by (intro mult_right_mono) simp_all
  then show ?thesis unfolding n f .
qed

lemma nearest_ge:
  assumes "of_int m * 2 powi q \<le> x" and "\<bar>x\<bar> < 2 powi (q + 53)" and "- 1074 \<le> q"
  shows "of_int m * 2 powi q \<le> nearest x"
proof (cases "x = 0")
  case True
  with assms(1) show ?thesis by (simp add: nearest_def)
next
  case False
  define e where "e = max (exponent \<bar>x\<bar>) (- 1022)"
  define u :: rat where "u = 2 powi (e - 52)"
  have u0: "0 < u" by (simp add: u_def)
  from assms(2) have "\<bar>x\<bar> < 2 powi (q + 52 + 1)" by (simp add: algebra_simps)
  from unit_bounds [OF False this] assms(3) have "e \<le> q + 52" by (simp add: e_def)
  then have q: "0 \<le> q - (e - 52)" by simp
  have "(2 :: rat) powi q = 2 powi (q - (e - 52)) * 2 powi (e - 52)"
    using power_int_add [of "2 :: rat" "q - (e - 52)" "e - 52"] by simp
  also from q have "(2 :: rat) powi (q - (e - 52)) = of_int (2 ^ nat (q - (e - 52)))"
    by (simp add: power_int_def)
  finally have f: "of_int m * 2 powi q = of_int (m * 2 ^ nat (q - (e - 52))) * u"
    by (simp add: u_def)
  have n: "nearest x = of_int (round_half_even (x / u)) * u"
    using nearest_unit [OF False] by (simp add: e_def u_def)
  from assms(1) f u0 have "of_int (m * 2 ^ nat (q - (e - 52))) \<le> x / u"
    by (simp add: field_simps)
  then have "m * 2 ^ nat (q - (e - 52)) \<le> round_half_even (x / u)" by (rule round_half_even_ge)
  then have "(of_int (m * 2 ^ nat (q - (e - 52))) :: rat) \<le> of_int (round_half_even (x / u))"
    by (simp only: of_int_le_iff)
  then have "of_int (m * 2 ^ nat (q - (e - 52))) * u \<le> of_int (round_half_even (x / u)) * u"
    using u0 by (intro mult_right_mono) simp_all
  then show ?thesis unfolding n f .
qed

lemma nearest_exact:
  assumes "\<bar>m\<bar> < 2 ^ 53" and "- 1074 \<le> q"
  shows "nearest (of_int m * 2 powi q) = of_int m * 2 powi q"
proof -
  have "(of_int \<bar>m\<bar> :: rat) < of_int (2 ^ 53)" using assms(1) by (simp only: of_int_less_iff)
  then have "\<bar>of_int m :: rat\<bar> * 2 powi q < 2 ^ 53 * 2 powi q"
    by (intro mult_strict_right_mono) simp_all
  also have "(2 :: rat) ^ 53 * 2 powi q = 2 powi (q + 53)"
    using power_int_add [of "2 :: rat" q 53] by simp
  finally have "\<bar>of_int m * 2 powi q :: rat\<bar> < 2 powi (q + 53)" by (simp add: abs_mult)
  with assms(2) show ?thesis
    using nearest_le [of "of_int m * 2 powi q" m q] nearest_ge [of m q "of_int m * 2 powi q"]
    by simp
qed

lemma nearest_of_int: "\<bar>m\<bar> < 2 ^ 53 \<Longrightarrow> nearest (of_int m) = of_int m"
  using nearest_exact [of m 0] by simp

lemma nearest_numeral [simp]:
  "numeral w < (2 :: int) ^ 53 \<Longrightarrow> nearest (numeral w) = numeral w"
  "numeral w < (2 :: int) ^ 53 \<Longrightarrow> nearest (- numeral w) = - numeral w"
  using nearest_of_int [of "numeral w"] nearest_of_int [of "- numeral w"] by simp_all

















section \<open>The invariants hold in every reachable state\<close>

lemma filter_update_count:
  "i < length ts \<Longrightarrow>
   length (filter P (ts[i := t])) + (if P (ts ! i) then 1 else 0) =
   length (filter P ts) + (if P t then 1 else 0)"
proof (induction ts arbitrary: i)
  case Nil
  then show ?case by simp
next
  case (Cons a ts)
  then show ?case by (cases i) auto
qed

lemma filter_update_same:
  assumes "P t = P (ts ! i)"
  shows "length (filter P (ts[i := t])) = length (filter P ts)"
proof (cases "i < length ts")
  case True
  from filter_update_count[OF True, of P t] assms show ?thesis by (simp split: if_splits)
next
  case False
  then have "ts[i := t] = ts" by (simp add: list_update_beyond)
  then show ?thesis by simp
qed

lemma queued_update:
  "i < length ts \<Longrightarrow>
   {j. j < length (ts[i := t]) \<and> queued (ts[i := t] ! j)} =
   (if queued t then insert i {j. j < length ts \<and> queued (ts ! j)}
    else {j. j < length ts \<and> queued (ts ! j)} - {i})"
  by (auto simp: nth_list_update)

lemma queued_append:
  "\<not> queued t \<Longrightarrow>
   {j. j < length (ts @ [t]) \<and> queued ((ts @ [t]) ! j)} = {j. j < length ts \<and> queued (ts ! j)}"
  by (auto simp: nth_append less_Suc_eq)

lemma length_release [simp]: "length (release r q ts) = length ts"
  unfolding release_def by (induction q arbitrary: ts) auto

lemma settle_queued_idem [simp]: "settle_queued r (settle_queued r t) = settle_queued r t"
  by (cases "(r, t)" rule: settle_queued.cases) auto

lemma release_nth:
  "i < length ts \<Longrightarrow>
   release r q ts ! i = (if i \<in> set q then settle_queued r (ts ! i) else ts ! i)"
  unfolding release_def
proof (induction q arbitrary: ts)
  case Nil
  then show ?case by simp
next
  case (Cons p q)
  then show ?case by (cases "p = i") (auto simp: nth_list_update)
qed

lemma leading_settle_queued [simp]: "leading (settle_queued r t) = leading t"
  by (cases "(r, t)" rule: settle_queued.cases) auto

lemma queued_settle_queued [simp]: "\<not> queued (settle_queued r t)"
  by (cases "(r, t)" rule: settle_queued.cases) auto

lemma filter_count_cong:
  "map P xs = map P ys \<Longrightarrow> length (filter P xs) = length (filter P ys)"
proof (induction xs arbitrary: ys)
  case Nil
  then show ?case by simp
next
  case (Cons x xs)
  then show ?case by (cases ys) auto
qed

lemma leaders_release: "length (filter leading (release r q ts)) = length (filter leading ts)"
  by (rule filter_count_cong) (simp add: list_eq_iff_nth_eq release_nth)

lemma coordinated_initial: "coordinated (initial st)"
  by (simp add: coordinated_def initial_def)

lemma coordinated_same:
  assumes "coordinated s" and "i < length (tasks s)"
    and "leading t = leading (tasks s ! i)" and "queued t = queued (tasks s ! i)"
  shows "coordinated (set_task i t s)"
proof -
  have "{j. j < length ((tasks s)[i := t]) \<and> queued ((tasks s)[i := t] ! j)} =
        {j. j < length (tasks s) \<and> queued (tasks s ! j)}"
    using assms(2,4) by (auto simp: nth_list_update)
  then show ?thesis
    using assms(1) filter_update_same[of leading t "tasks s" i, OF assms(3)]
    by (simp add: coordinated_def set_task_def)
qed

lemma coordinated_storage [simp]: "coordinated (s\<lparr>storage := st\<rparr>) = coordinated s"
  by (simp add: coordinated_def)

lemma coordinated_calls [simp]: "coordinated (s\<lparr>calls := cs\<rparr>) = coordinated s"
  by (simp add: coordinated_def)

lemma coordinated_log_call [simp]: "coordinated (log_call i rs s) = coordinated s"
  by (cases "(i, rs, s)" rule: log_call.cases) simp_all

lemma tasks_storage_upd [simp]: "set_task i t (s\<lparr>storage := st\<rparr>) = (set_task i t s)\<lparr>storage := st\<rparr>"
  by (simp add: set_task_def)

lemma coordinated_storage_done:
  assumes "coordinated s" and "i < length (tasks s)"
    and "storage_done i (tasks s ! i) s = Some s'"
  shows "coordinated s'"
  using assms
  by (cases "(i, tasks s ! i, s)" rule: storage_done.cases) (auto simp: coordinated_same)

lemma coordinated_callback:
  assumes "coordinated s" and "i < length (tasks s)"
    and "callback_settled outcome i (tasks s ! i) s = Some s'"
  shows "coordinated s'"
  using assms
  by (cases "(outcome, i, tasks s ! i, s)" rule: callback_settled.cases)
     (auto simp: coordinated_same)

lemma coordinated_append:
  assumes "coordinated s" and "\<not> leading t" and "\<not> queued t"
  shows "coordinated (s\<lparr>tasks := tasks s @ [t]\<rparr>)"
proof -
  have "{j. j < length (tasks s @ [t]) \<and> queued ((tasks s @ [t]) ! j)} =
        {j. j < length (tasks s) \<and> queued (tasks s ! j)}"
    using assms(3) by (rule queued_append)
  then show ?thesis using assms(1,2) by (simp add: coordinated_def)
qed

lemma coordinated_enqueue:
  assumes "coordinated s" and "i < length (tasks s)"
    and "\<not> leading (tasks s ! i)" and "\<not> queued (tasks s ! i)"
    and "isRefreshing s" and "\<not> leading t" and "queued t"
  shows "coordinated (set_task i t (s\<lparr>queue := queue s @ [i]\<rparr>))"
proof -
  have q: "set (queue s) = {j. j < length (tasks s) \<and> queued (tasks s ! j)}"
    and d: "distinct (queue s)"
    and n: "length (filter leading (tasks s)) = 1"
    using assms(1,5) by (simp_all add: coordinated_def)
  have "i \<notin> set (queue s)" using q assms(4) by simp
  moreover have "{j. j < length ((tasks s)[i := t]) \<and> queued ((tasks s)[i := t] ! j)} =
        insert i (set (queue s))"
    using queued_update[OF assms(2), of t] assms(7) q by simp
  moreover have "length (filter leading ((tasks s)[i := t])) = 1"
    using filter_update_same[of leading t "tasks s" i] assms(3,6) n by simp
  ultimately show ?thesis
    using d assms(5) by (simp add: coordinated_def set_task_def)
qed

lemma coordinated_lead:
  assumes "coordinated s" and "i < length (tasks s)"
    and "\<not> leading (tasks s ! i)" and "\<not> queued (tasks s ! i)"
    and "\<not> isRefreshing s" and "leading t" and "\<not> queued t"
  shows "coordinated (set_task i t (s\<lparr>isRefreshing := True\<rparr>))"
proof -
  have q: "queue s = []"
    using assms(1,5) by (simp add: coordinated_def)
  have "set (queue s) = {j. j < length (tasks s) \<and> queued (tasks s ! j)}"
    using assms(1) by (simp add: coordinated_def)
  with q have e: "{j. j < length (tasks s) \<and> queued (tasks s ! j)} = {}"
    by simp
  have n: "length (filter leading (tasks s)) = 0"
    using assms(1,5) by (simp add: coordinated_def)
  have "{j. j < length ((tasks s)[i := t]) \<and> queued ((tasks s)[i := t] ! j)} = {}"
    unfolding queued_update[OF assms(2), of t] e using assms(7) by simp
  moreover have "length (filter leading ((tasks s)[i := t])) = 1"
    using filter_update_count[OF assms(2), of leading t] assms(3,6) n by simp
  ultimately have "length (filter leading ((tasks s)[i := t])) = 1 \<and>
      distinct ([]::nat list) \<and>
      set [] = {j. j < length ((tasks s)[i := t]) \<and> queued ((tasks s)[i := t] ! j)}"
    by simp
  then show ?thesis
    unfolding coordinated_def set_task_def using q by simp
qed

lemma coordinated_finish:
  assumes "coordinated s" and "i < length (tasks s)"
    and "leading (tasks s ! i)" and "\<not> leading t" and "\<not> queued t"
  shows "coordinated (set_task i t
           (s\<lparr>tasks := release r (queue s) (tasks s), queue := [], isRefreshing := False\<rparr>))"
proof -
  let ?ts = "release r (queue s) (tasks s)"
  have q: "set (queue s) = {j. j < length (tasks s) \<and> queued (tasks s ! j)}"
    using assms(1) by (simp add: coordinated_def)
  have le: "length (filter leading (tasks s)) \<le> 1"
    using assms(1) by (simp add: coordinated_def)
  have "tasks s ! i \<in> set (tasks s)"
    using assms(2) by simp
  then have "filter leading (tasks s) \<noteq> []"
    using assms(3) by (auto simp: filter_empty_conv)
  with le have "length (filter leading (tasks s)) = 1"
    by (cases "filter leading (tasks s)") auto
  then have n: "length (filter leading ?ts) = 1"
    by (simp add: leaders_release)
  have i: "i < length ?ts" using assms(2) by simp
  have li: "leading (?ts ! i)" using assms(2,3) by (simp add: release_nth)
  have "length (filter leading (?ts[i := t])) = 0"
    using filter_update_count[OF i, of leading t] assms(4) li n by simp
  moreover have "\<And>j. j < length (tasks s) \<Longrightarrow> \<not> queued (?ts ! j)"
    using q by (auto simp: release_nth)
  then have "{j. j < length (?ts[i := t]) \<and> queued (?ts[i := t] ! j)} = {}"
    using assms(5) i by (auto simp: nth_list_update split: if_splits)
  ultimately show ?thesis
    by (simp add: coordinated_def set_task_def)
qed

lemma coordinated_resume:
  assumes inv: "coordinated s" and i: "i < length (tasks s)"
    and st: "resume_task env now i (tasks s ! i) s = Some s'"
  shows "coordinated s'"
proof (cases "tasks s ! i")
  case (Interceptor c ist)
  note t = this
  show ?thesis
  proof (cases ist)
    case Reading
    with st t show ?thesis by simp
  next
    case (Read r)
    note ist = this
    show ?thesis
    proof (cases "getRefreshToken r")
      case (Inl e)
      with st t ist inv i show ?thesis by (auto simp: coordinated_same)
    next
      case (Inr rtoken)
      show ?thesis
      proof (cases "truthy rtoken")
        case False
        with st t ist Inr inv i show ?thesis by (auto simp: coordinated_same)
      next
        case True
        show ?thesis
        proof (cases "isRefreshing s")
          case True
          with st t ist Inr \<open>truthy rtoken\<close> inv i show ?thesis
            by (auto simp: coordinated_enqueue)
        next
          case False
          with st t ist Inr \<open>truthy rtoken\<close> inv i show ?thesis
            by (auto simp: coordinated_lead)
        qed
      qed
    qed
  next
    case (Refreshing rs)
    note ist = this
    show ?thesis
    proof (cases rs)
      case (AwaitStorage op l)
      with st t ist show ?thesis by simp
    next
      case (StorageDone r l)
      with st t ist inv i show ?thesis by (auto simp: coordinated_same)
    next
      case (AwaitCallback rt)
      with st t ist show ?thesis by simp
    next
      case (Finished res)
      show ?thesis
      proof (cases res)
        case (Inl error)
        with st t ist Finished inv i show ?thesis
          by (auto simp: declineQueue_def coordinated_finish)
      next
        case (Inr token)
        with st t ist Finished inv i show ?thesis
          by (auto simp: resolveQueue_def coordinated_finish)
      qed
    qed
  next
    case Queued
    with st t show ?thesis by simp
  next
    case (Released res)
    with st t inv i show ?thesis by (cases res) (auto simp: coordinated_same)
  next
    case (Settled res)
    with st t show ?thesis by simp
  qed
next
  case (Direct rs)
  with st inv i show ?thesis by (cases rs) (auto simp: coordinated_same)
qed

lemma coordinated_step:
  assumes "coordinated s" and "step env s ev = Some s'"
  shows "coordinated s'"
proof (cases ev)
  case (Request c)
  with assms show ?thesis by (auto simp: coordinated_append)
next
  case Call_refreshTokenIfNeeded
  with assms show ?thesis by (auto simp: coordinated_append)
next
  case (App_setAuthTokens tokens)
  with assms show ?thesis by auto
next
  case App_clearAuthTokens
  with assms show ?thesis by auto
next
  case (Storage_done i)
  with assms(2) have "i < length (tasks s)" "storage_done i (tasks s ! i) s = Some s'"
    by (simp_all split: if_splits)
  with assms(1) show ?thesis by (rule coordinated_storage_done)
next
  case (Resume i now)
  with assms(2) have "i < length (tasks s)" "resume_task env now i (tasks s ! i) s = Some s'"
    by (simp_all split: if_splits)
  with assms(1) show ?thesis by (rule coordinated_resume)
next
  case (Callback i outcome)
  with assms(2) have "i < length (tasks s)"
    "callback_settled outcome i (tasks s ! i) s = Some s'"
    by (simp_all split: if_splits)
  with assms(1) show ?thesis by (rule coordinated_callback)
qed

lemma coordinated_run:
  assumes "coordinated s" and "run env s evs = Some s'"
  shows "coordinated s'"
  using assms
proof (induction evs arbitrary: s)
  case Nil
  then show ?case by simp
next
  case (Cons ev evs)
  from Cons.prems(2) obtain s1 where s1: "step env s ev = Some s1" "run env s1 evs = Some s'"
    by (auto split: option.splits)
  from Cons.prems(1) s1(1) have "coordinated s1" by (rule coordinated_step)
  then show ?case using s1(2) by (rule Cons.IH)
qed

lemma accounted_initial: "accounted (initial st)"
  by (simp add: accounted_def initial_def invocations_def)

lemma invocations_simps [simp]:
  "invocations (s\<lparr>storage := st\<rparr>) = invocations s"
  "invocations (s\<lparr>isRefreshing := b\<rparr>) = invocations s"
  "invocations (s\<lparr>queue := q\<rparr>) = invocations s"
  "invocations (s\<lparr>tasks := ts\<rparr>) = invocations s"
  "invocations (set_task i t s) = invocations s"
  by (simp_all add: invocations_def fun_eq_iff set_task_def)

lemma invocations_log [simp]:
  "invocations (s\<lparr>calls := calls s @ [(i, rt)]\<rparr>) j = invocations s j + (if j = i then 1 else 0)"
  by (simp add: invocations_def)

lemma accounted_fields [simp]:
  "accounted (s\<lparr>storage := st\<rparr>) = accounted s"
  "accounted (s\<lparr>isRefreshing := b\<rparr>) = accounted s"
  "accounted (s\<lparr>queue := q\<rparr>) = accounted s"
  by (simp_all add: accounted_def)

lemma accounted_cong:
  "tasks s' = tasks s \<Longrightarrow> calls s' = calls s \<Longrightarrow> accounted s' = accounted s"
  by (simp add: accounted_def invocations_def)

lemma accounted_append:
  assumes "accounted s" and "task_lo t = 0"
  shows "accounted (s\<lparr>tasks := tasks s @ [t]\<rparr>)"
  unfolding accounted_def
proof
  fix i
  from assms(1) have a:
    "if i < length (tasks s)
     then task_lo (tasks s ! i) \<le> invocations s i \<and> invocations s i \<le> task_hi (tasks s ! i)
     else invocations s i = 0"
    unfolding accounted_def by blast
  show "if i < length (tasks (s\<lparr>tasks := tasks s @ [t]\<rparr>))
        then task_lo (tasks (s\<lparr>tasks := tasks s @ [t]\<rparr>) ! i)
               \<le> invocations (s\<lparr>tasks := tasks s @ [t]\<rparr>) i \<and>
             invocations (s\<lparr>tasks := tasks s @ [t]\<rparr>) i
               \<le> task_hi (tasks (s\<lparr>tasks := tasks s @ [t]\<rparr>) ! i)
        else invocations (s\<lparr>tasks := tasks s @ [t]\<rparr>) i = 0"
    using a assms(2) by (auto simp: nth_append less_Suc_eq split: if_splits)
qed

lemma accounted_widen:
  assumes "accounted s" and "i < length (tasks s)"
    and "task_lo t \<le> task_lo (tasks s ! i)" and "task_hi (tasks s ! i) \<le> task_hi t"
  shows "accounted (set_task i t s)"
  unfolding accounted_def
proof
  fix j
  from assms(1) have a:
    "if j < length (tasks s)
     then task_lo (tasks s ! j) \<le> invocations s j \<and> invocations s j \<le> task_hi (tasks s ! j)
     else invocations s j = 0"
    unfolding accounted_def by blast
  show "if j < length (tasks (set_task i t s))
        then task_lo (tasks (set_task i t s) ! j) \<le> invocations (set_task i t s) j \<and>
             invocations (set_task i t s) j \<le> task_hi (tasks (set_task i t s) ! j)
        else invocations (set_task i t s) j = 0"
  proof (cases "j = i")
    case True
    with a assms(2-) show ?thesis by (simp add: set_task_def)
  next
    case False
    with a show ?thesis by (simp add: set_task_def)
  qed
qed

lemma accounted_call:
  assumes "accounted s" and "i < length (tasks s)"
    and "task_hi (tasks s ! i) = 0" and "task_lo t = 1" and "task_hi t = 1"
  shows "accounted ((set_task i t s)\<lparr>calls := calls (set_task i t s) @ [(i, rt)]\<rparr>)"
  unfolding accounted_def
proof
  fix j
  let ?s = "(set_task i t s)\<lparr>calls := calls (set_task i t s) @ [(i, rt)]\<rparr>"
  from assms(1) have a:
    "if j < length (tasks s)
     then task_lo (tasks s ! j) \<le> invocations s j \<and> invocations s j \<le> task_hi (tasks s ! j)
     else invocations s j = 0"
    unfolding accounted_def by blast
  have inv: "invocations ?s j = invocations s j + (if j = i then 1 else 0)"
    by (simp add: invocations_def set_task_def)
  have ts: "tasks ?s = (tasks s)[i := t]"
    by (simp add: set_task_def)
  show "if j < length (tasks ?s)
        then task_lo (tasks ?s ! j) \<le> invocations ?s j \<and>
             invocations ?s j \<le> task_hi (tasks ?s ! j)
        else invocations ?s j = 0"
  proof (cases "j = i")
    case True
    with a assms(2-) show ?thesis unfolding inv ts by simp
  next
    case False
    with a assms(2) show ?thesis unfolding inv ts by simp
  qed
qed

lemma task_bounds_settle_queued [simp]:
  "task_lo (settle_queued r t) = task_lo t" "task_hi (settle_queued r t) = task_hi t"
  by (cases "(r, t)" rule: settle_queued.cases; simp)+

lemma accounted_release:
  assumes "accounted s"
  shows "accounted (s\<lparr>tasks := release r q (tasks s)\<rparr>)"
  unfolding accounted_def
proof
  fix j
  from assms(1) have a:
    "if j < length (tasks s)
     then task_lo (tasks s ! j) \<le> invocations s j \<and> invocations s j \<le> task_hi (tasks s ! j)
     else invocations s j = 0"
    unfolding accounted_def by blast
  then show "if j < length (tasks (s\<lparr>tasks := release r q (tasks s)\<rparr>))
        then task_lo (tasks (s\<lparr>tasks := release r q (tasks s)\<rparr>) ! j)
               \<le> invocations (s\<lparr>tasks := release r q (tasks s)\<rparr>) j \<and>
             invocations (s\<lparr>tasks := release r q (tasks s)\<rparr>) j
               \<le> task_hi (tasks (s\<lparr>tasks := release r q (tasks s)\<rparr>) ! j)
        else invocations (s\<lparr>tasks := release r q (tasks s)\<rparr>) j = 0"
    by (simp add: release_nth)
qed

lemma after_failure_bounds:
  "calls_lo (after_failure e) \<le> 1 \<and> 1 \<le> calls_hi (after_failure e) \<and>
   (\<forall>rt. after_failure e \<noteq> AwaitCallback rt)"
  by (simp add: after_failure_def split: option.splits)

lemma after_callback_bounds:
  "calls_lo (after_callback out) \<le> 1 \<and> 1 \<le> calls_hi (after_callback out) \<and>
   (\<forall>rt. after_callback out \<noteq> AwaitCallback rt)"
  using after_failure_bounds by (simp add: after_callback_def split: sum.splits)

lemma resume_bounds:
  "(\<exists>rt. resume dec now l r = AwaitCallback rt \<and> made l = 0) \<or>
   ((\<forall>rt. resume dec now l r \<noteq> AwaitCallback rt) \<and>
    calls_lo (resume dec now l r) \<le> made l \<and> made l \<le> calls_hi (resume dec now l r))"
proof (cases l)
  case (L_setAccessToken_get token)
  then show ?thesis using after_failure_bounds by (simp split: sum.splits)
qed (simp_all split: sum.splits)

lemma accounted_storage_done:
  assumes "accounted s" and "i < length (tasks s)"
    and "storage_done i (tasks s ! i) s = Some s'"
  shows "accounted s'"
  using assms
  by (cases "(i, tasks s ! i, s)" rule: storage_done.cases) (auto simp: accounted_widen)

lemma accounted_callback:
  assumes "accounted s" and "i < length (tasks s)"
    and "callback_settled outcome i (tasks s ! i) s = Some s'"
  shows "accounted s'"
  using assms after_callback_bounds[of outcome]
  by (cases "(outcome, i, tasks s ! i, s)" rule: callback_settled.cases)
     (auto simp: accounted_widen)

lemma accounted_resumed:
  assumes "accounted s" and "i < length (tasks s)"
    and "task_lo (tasks s ! i) = made l" and "task_hi (tasks s ! i) = made l"
    and "task_lo t = calls_lo (resume dec now l r)"
    and "task_hi t = calls_hi (resume dec now l r)"
  shows "accounted (log_call i (resume dec now l r) (set_task i t s))"
  using resume_bounds[of dec now l r]
proof
  assume "\<exists>rt. resume dec now l r = AwaitCallback rt \<and> made l = 0"
  then obtain rt where rt: "resume dec now l r = AwaitCallback rt" "made l = 0"
    by blast
  with assms show ?thesis by (simp add: accounted_call)
next
  assume b: "(\<forall>rt. resume dec now l r \<noteq> AwaitCallback rt) \<and>
    calls_lo (resume dec now l r) \<le> made l \<and> made l \<le> calls_hi (resume dec now l r)"
  then have "log_call i (resume dec now l r) (set_task i t s) = set_task i t s"
    by (cases "resume dec now l r") simp_all
  with assms b show ?thesis by (simp add: accounted_widen)
qed

lemma accounted_finish:
  assumes "accounted s" and "i < length (tasks s)"
    and "task_lo t = 0" and "task_hi t = 1"
    and "task_hi (tasks s ! i) \<le> 1"
  shows "accounted (set_task i t
           (s\<lparr>tasks := release r (queue s) (tasks s), queue := [], isRefreshing := False\<rparr>))"
proof -
  have "accounted (s\<lparr>tasks := release r (queue s) (tasks s)\<rparr>)"
    using assms(1) by (rule accounted_release)
  then have "accounted (set_task i t (s\<lparr>tasks := release r (queue s) (tasks s)\<rparr>))"
    using assms(2-) by (intro accounted_widen) (simp_all add: release_nth)
  moreover have "accounted (set_task i t
           (s\<lparr>tasks := release r (queue s) (tasks s), queue := [], isRefreshing := False\<rparr>)) =
         accounted (set_task i t (s\<lparr>tasks := release r (queue s) (tasks s)\<rparr>))"
    by (rule accounted_cong) (simp_all add: set_task_def)
  ultimately show ?thesis by simp
qed

lemma accounted_enqueue:
  assumes "accounted s" and "i < length (tasks s)"
    and "task_lo t \<le> task_lo (tasks s ! i)" and "task_hi (tasks s ! i) \<le> task_hi t"
  shows "accounted (set_task i t (s\<lparr>queue := q\<rparr>))"
    and "accounted (set_task i t (s\<lparr>isRefreshing := b\<rparr>))"
proof -
  have a: "accounted (set_task i t s)"
    using assms by (rule accounted_widen)
  have "accounted (set_task i t (s\<lparr>queue := q\<rparr>)) = accounted (set_task i t s)"
    by (rule accounted_cong) (simp_all add: set_task_def)
  with a show "accounted (set_task i t (s\<lparr>queue := q\<rparr>))" by simp
  have "accounted (set_task i t (s\<lparr>isRefreshing := b\<rparr>)) = accounted (set_task i t s)"
    by (rule accounted_cong) (simp_all add: set_task_def)
  with a show "accounted (set_task i t (s\<lparr>isRefreshing := b\<rparr>))" by simp
qed

lemma accounted_resume:
  assumes inv: "accounted s" and i: "i < length (tasks s)"
    and st: "resume_task env now i (tasks s ! i) s = Some s'"
  shows "accounted s'"
proof (cases "tasks s ! i")
  case (Interceptor c ist)
  note t = this
  show ?thesis
  proof (cases ist)
    case Reading
    with st t show ?thesis by simp
  next
    case (Read r)
    with st t inv i show ?thesis
      by (auto simp: accounted_widen accounted_enqueue split: sum.splits if_splits)
  next
    case (Refreshing rs)
    note ist = this
    show ?thesis
    proof (cases rs)
      case (AwaitStorage op l)
      with st t ist show ?thesis by simp
    next
      case (StorageDone r l)
      with st t ist inv i show ?thesis by (auto simp: accounted_resumed)
    next
      case (AwaitCallback rt)
      with st t ist show ?thesis by simp
    next
      case (Finished res)
      show ?thesis
      proof (cases res)
        case (Inl error)
        with st t ist Finished inv i show ?thesis
          by (auto simp: declineQueue_def accounted_finish)
      next
        case (Inr token)
        with st t ist Finished inv i show ?thesis
          by (auto simp: resolveQueue_def accounted_finish)
      qed
    qed
  next
    case Queued
    with st t show ?thesis by simp
  next
    case (Released res)
    with st t inv i show ?thesis by (cases res) (auto simp: accounted_widen)
  next
    case (Settled res)
    with st t show ?thesis by simp
  qed
next
  case (Direct rs)
  with st inv i show ?thesis by (cases rs) (auto simp: accounted_resumed)
qed

lemma accounted_step:
  assumes "accounted s" and "step env s ev = Some s'"
  shows "accounted s'"
proof (cases ev)
  case (Request c)
  with assms show ?thesis by (auto simp: accounted_append)
next
  case Call_refreshTokenIfNeeded
  with assms show ?thesis by (auto simp: accounted_append)
next
  case (App_setAuthTokens tokens)
  with assms show ?thesis by auto
next
  case App_clearAuthTokens
  with assms show ?thesis by auto
next
  case (Storage_done i)
  with assms(2) have "i < length (tasks s)" "storage_done i (tasks s ! i) s = Some s'"
    by (simp_all split: if_splits)
  with assms(1) show ?thesis by (rule accounted_storage_done)
next
  case (Resume i now)
  with assms(2) have "i < length (tasks s)" "resume_task env now i (tasks s ! i) s = Some s'"
    by (simp_all split: if_splits)
  with assms(1) show ?thesis by (rule accounted_resume)
next
  case (Callback i outcome)
  with assms(2) have "i < length (tasks s)"
    "callback_settled outcome i (tasks s ! i) s = Some s'"
    by (simp_all split: if_splits)
  with assms(1) show ?thesis by (rule accounted_callback)
qed

lemma accounted_run:
  assumes "accounted s" and "run env s evs = Some s'"
  shows "accounted s'"
  using assms
proof (induction evs arbitrary: s)
  case Nil
  then show ?case by simp
next
  case (Cons ev evs)
  from Cons.prems(2) obtain s1 where s1: "step env s ev = Some s1" "run env s1 evs = Some s'"
    by (auto split: option.splits)
  from Cons.prems(1) s1(1) have "accounted s1" by (rule accounted_step)
  then show ?case using s1(2) by (rule Cons.IH)
qed

section \<open>What a step can do to the coordinator state\<close>

lemma set_task_fields [simp]:
  "storage (set_task i t s) = storage s"
  "isRefreshing (set_task i t s) = isRefreshing s"
  "queue (set_task i t s) = queue s"
  "calls (set_task i t s) = calls s"
  "tasks (set_task i t s) = (tasks s)[i := t]"
  by (simp_all add: set_task_def)

lemma log_call_fields [simp]:
  "storage (log_call i rs s) = storage s"
  "isRefreshing (log_call i rs s) = isRefreshing s"
  "queue (log_call i rs s) = queue s"
  "tasks (log_call i rs s) = tasks s"
  by (cases "(i, rs, s)" rule: log_call.cases; simp)+

lemma two_hits:
  "i < j \<Longrightarrow> j < length ts \<Longrightarrow> P (ts ! i) \<Longrightarrow> P (ts ! j) \<Longrightarrow> 2 \<le> length (filter P ts)"
proof (induction ts arbitrary: i j)
  case Nil
  then show ?case by simp
next
  case (Cons a ts)
  from Cons.prems(1) obtain j' where j: "j = Suc j'" by (cases j) auto
  show ?case
  proof (cases i)
    case 0
    from Cons.prems(2,4) j have "ts ! j' \<in> set ts" "P (ts ! j')" by simp_all
    then have "filter P ts \<noteq> []" by (auto simp: filter_empty_conv)
    then have "1 \<le> length (filter P ts)" by (cases "filter P ts") auto
    with Cons.prems(3) 0 show ?thesis by simp
  next
    case (Suc i')
    with Cons.prems j have "2 \<le> length (filter P ts)"
      by (intro Cons.IH[of i' j']) simp_all
    then show ?thesis by simp
  qed
qed

lemma unique_leader:
  assumes "coordinated s" and "i < length (tasks s)" and "j < length (tasks s)"
    and "leading (tasks s ! i)" and "leading (tasks s ! j)"
  shows "i = j"
proof (rule ccontr)
  assume "i \<noteq> j"
  then consider "i < j" | "j < i" by linarith
  then have "2 \<le> length (filter leading (tasks s))"
    using assms(2-) by cases (auto intro: two_hits)
  with assms(1) show False by (simp add: coordinated_def split: if_splits)
qed

lemma flag_iff_leader:
  assumes "coordinated s"
  shows "isRefreshing s \<longleftrightarrow> (\<exists>i<length (tasks s). leading (tasks s ! i))"
proof -
  have "(\<exists>i<length (tasks s). leading (tasks s ! i)) \<longleftrightarrow> (\<exists>t\<in>set (tasks s). leading t)"
    by (metis in_set_conv_nth)
  also have "\<dots> \<longleftrightarrow> filter leading (tasks s) \<noteq> []"
    by (simp add: filter_empty_conv)
  also have "\<dots> \<longleftrightarrow> isRefreshing s"
    using assms by (cases "filter leading (tasks s)") (auto simp: coordinated_def split: if_splits)
  finally show ?thesis by simp
qed

lemma queued_iff: "queued t \<longleftrightarrow> (\<exists>c. t = Interceptor c Queued)"
  by (cases t rule: queued.cases) auto

lemma queue_members:
  assumes "coordinated s" and "w \<in> set (queue s)"
  shows "w < length (tasks s) \<and> (\<exists>c. tasks s ! w = Interceptor c Queued)"
  using assms by (auto simp: coordinated_def queued_iff)

lemma idle_queue_empty: "coordinated s \<Longrightarrow> \<not> isRefreshing s \<Longrightarrow> queue s = []"
  by (simp add: coordinated_def)

lemma leader_settles:
  assumes inv: "coordinated s" and i: "i < length (tasks s)"
    and t: "tasks s ! i = Interceptor c (Refreshing (Finished res))"
    and st: "step env s (Resume i now) = Some s'"
  shows "\<not> isRefreshing s'" and "queue s' = []"
    and "storage s' = storage s" and "calls s' = calls s"
    and "tasks s' ! i =
           Interceptor c (Settled (case res of
              Inl error \<Rightarrow> Inl (refresh_Error error)
            | Inr token \<Rightarrow> Inr (if truthy token then with_token env c token else c)))"
    and "\<forall>w\<in>set (queue s). \<exists>cw. tasks s ! w = Interceptor cw Queued \<and>
           tasks s' ! w = Interceptor cw (Released res)"
proof -
  let ?out = "Interceptor c (Settled (case res of
              Inl error \<Rightarrow> Inl (refresh_Error error)
            | Inr token \<Rightarrow> Inr (if truthy token then with_token env c token else c)))"
  have s': "s' = set_task i ?out
      (s\<lparr>tasks := release res (queue s) (tasks s), queue := [], isRefreshing := False\<rparr>)"
    using st i t by (cases res) (simp_all add: resolveQueue_def declineQueue_def)
  show "\<not> isRefreshing s'" "queue s' = []" "storage s' = storage s" "calls s' = calls s"
    by (simp_all add: s')
  show "tasks s' ! i = ?out"
    using i by (simp add: s')
  show "\<forall>w\<in>set (queue s). \<exists>cw. tasks s ! w = Interceptor cw Queued \<and>
           tasks s' ! w = Interceptor cw (Released res)"
  proof
    fix w assume w: "w \<in> set (queue s)"
    with inv obtain cw where cw: "w < length (tasks s)" "tasks s ! w = Interceptor cw Queued"
      using queue_members by blast
    with t have "w \<noteq> i" by auto
    with cw w show "\<exists>cw. tasks s ! w = Interceptor cw Queued \<and>
           tasks s' ! w = Interceptor cw (Released res)"
      by (simp add: s' release_nth)
  qed
qed

lemma storage_done_flag:
  "storage_done i t s = Some s' \<Longrightarrow> isRefreshing s' = isRefreshing s \<and> queue s' = queue s"
  by (cases "(i, t, s)" rule: storage_done.cases) auto

lemma callback_settled_flag:
  "callback_settled outcome i t s = Some s' \<Longrightarrow>
   isRefreshing s' = isRefreshing s \<and> queue s' = queue s \<and> storage s' = storage s"
  by (cases "(outcome, i, t, s)" rule: callback_settled.cases) auto

lemma resume_task_clears:
  assumes "resume_task env now i t s = Some s'" and "isRefreshing s" and "\<not> isRefreshing s'"
  shows "\<exists>c res. t = Interceptor c (Refreshing (Finished res))"
proof (cases t)
  case (Interceptor c ist)
  show ?thesis
  proof (cases ist)
    case (Read r)
    with assms Interceptor show ?thesis by (auto split: sum.splits if_splits)
  next
    case (Refreshing rs)
    with assms Interceptor show ?thesis by (cases rs) auto
  next
    case (Released res)
    with assms Interceptor show ?thesis by (cases res) auto
  qed (use assms Interceptor in auto)
next
  case (Direct rs)
  with assms show ?thesis by (cases rs) auto
qed

lemma flag_cleared_by_leader:
  assumes "step env s ev = Some s'" and "isRefreshing s" and "\<not> isRefreshing s'"
  shows "\<exists>i now c res. ev = Resume i now \<and> i < length (tasks s) \<and>
           tasks s ! i = Interceptor c (Refreshing (Finished res))"
proof (cases ev)
  case (Storage_done i)
  with assms show ?thesis by (auto split: if_splits dest: storage_done_flag)
next
  case (Resume i now)
  with assms(1) have "i < length (tasks s)" "resume_task env now i (tasks s ! i) s = Some s'"
    by (simp_all split: if_splits)
  with assms(2,3) Resume show ?thesis by (auto dest: resume_task_clears)
next
  case (Callback i outcome)
  with assms show ?thesis by (auto split: if_splits dest: callback_settled_flag)
qed (use assms in auto)

lemma waiter_settles:
  assumes "w < length (tasks s)" and "tasks s ! w = Interceptor c (Released res)"
  shows "step env s (Resume w now) =
           Some (set_task w (Interceptor c (Settled (case res of
                   Inl e \<Rightarrow> Inl (reject_handler env e)
                 | Inr token \<Rightarrow> Inr (with_token env c token)))) s)"
  using assms by (cases res) simp_all

lemma arrival_resumes:
  assumes "i < length (tasks s)" and "tasks s ! i = Interceptor c (Read r)"
    and "getRefreshToken r = Inr rtoken" and "truthy rtoken"
  shows "step env s (Resume i now) =
           Some (if isRefreshing s
                 then set_task i (Interceptor c Queued) (s\<lparr>queue := queue s @ [i]\<rparr>)
                 else set_task i
                        (Interceptor c (Refreshing (AwaitStorage GetItem L_getAccessToken)))
                        (s\<lparr>isRefreshing := True\<rparr>))"
  using assms by simp

lemma invocations_bounds:
  assumes "accounted s"
  shows "invocations s i \<le> 1"
    and "i < length (tasks s) \<Longrightarrow> task_lo (tasks s ! i) \<le> invocations s i"
    and "i < length (tasks s) \<Longrightarrow> invocations s i \<le> task_hi (tasks s ! i)"
proof -
  from assms have a:
    "if i < length (tasks s)
     then task_lo (tasks s ! i) \<le> invocations s i \<and> invocations s i \<le> task_hi (tasks s ! i)
     else invocations s i = 0"
    unfolding accounted_def by blast
  have "made l \<le> 1" for l
    by (cases l) simp_all
  then have "calls_hi rs \<le> 1" for rs
    by (cases rs) simp_all
  then have "task_hi t \<le> 1" for t
    by (cases t rule: task_hi.cases) simp_all
  then have "task_hi (tasks s ! i) \<le> 1" .
  with a show "invocations s i \<le> 1" by (auto split: if_splits)
  from a show "i < length (tasks s) \<Longrightarrow> task_lo (tasks s ! i) \<le> invocations s i" by simp
  from a show "i < length (tasks s) \<Longrightarrow> invocations s i \<le> task_hi (tasks s ! i)" by simp
qed

lemma reachable_invariants:
  assumes "run env (initial st) evs = Some s"
  shows "coordinated s" and "accounted s"
  using assms coordinated_run[OF coordinated_initial] accounted_run[OF accounted_initial]
  by blast+

lemma release_Nil [simp]: "release r [] ts = ts"
  by (simp add: release_def)

lemma leading_release_nth:
  "i < length ts \<Longrightarrow> leading (release r q ts ! i) = leading (ts ! i)"
  by (simp add: release_nth)

lemma storage_done_tasks:
  "storage_done j t s = Some s' \<Longrightarrow>
   \<exists>t'. tasks s' = (tasks s)[j := t'] \<and> leading t' = leading t"
  by (cases "(j, t, s)" rule: storage_done.cases) auto

lemma callback_settled_tasks:
  "callback_settled outcome j t s = Some s' \<Longrightarrow>
   \<exists>t'. tasks s' = (tasks s)[j := t'] \<and> leading t' = leading t"
  by (cases "(outcome, j, t, s)" rule: callback_settled.cases) auto

lemma resume_task_tasks:
  assumes "resume_task env now j t s = Some s'"
  shows "\<exists>t' r q. tasks s' = (release r q (tasks s))[j := t']"
proof -
  have plain: "\<exists>t' r q. (tasks s)[j := u] = (release r q (tasks s))[j := t']" for u
    by (rule exI[of _ u], rule exI[of _ "Inr JUndefined"], rule exI[of _ "[]"]) simp
  have released: "\<exists>t' r q. (release r0 q0 (tasks s))[j := u] = (release r q (tasks s))[j := t']"
    for u r0 q0
    by blast
  show ?thesis
  proof (cases t)
    case (Interceptor c ist)
    show ?thesis
    proof (cases ist)
      case (Read r)
      with assms Interceptor plain show ?thesis by (auto split: sum.splits if_splits)
    next
      case (Refreshing rs)
      show ?thesis
      proof (cases rs)
        case (Finished res)
        with assms Interceptor Refreshing released show ?thesis
          by (cases res) (auto simp: resolveQueue_def declineQueue_def)
      qed (use assms Interceptor Refreshing plain in auto)
    next
      case (Released res)
      with assms Interceptor plain show ?thesis by (cases res) auto
    qed (use assms Interceptor in auto)
  next
    case (Direct rs)
    with assms plain show ?thesis by (cases rs) auto
  qed
qed

lemma leader_returns:
  assumes st: "step env s ev = Some s'" and i: "i < length (tasks s)"
    and t: "tasks s ! i = Interceptor c (Refreshing rs)"
    and t': "tasks s' ! i = Interceptor c' (Settled out)"
  shows "\<exists>now res. ev = Resume i now \<and> rs = Finished res"
proof (cases ev)
  case (Request r)
  with st i t t' show ?thesis by (auto simp: nth_append)
next
  case Call_refreshTokenIfNeeded
  with st i t t' show ?thesis by (auto simp: nth_append)
next
  case (App_setAuthTokens tokens)
  with st t t' show ?thesis by auto
next
  case App_clearAuthTokens
  with st t t' show ?thesis by auto
next
  case (Storage_done j)
  with st have j: "j < length (tasks s)" "storage_done j (tasks s ! j) s = Some s'"
    by (simp_all split: if_splits)
  then obtain u where u: "tasks s' = (tasks s)[j := u]" "leading u = leading (tasks s ! j)"
    using storage_done_tasks by blast
  with i t t' show ?thesis by (cases "i = j") auto
next
  case (Callback j outcome)
  with st have j: "j < length (tasks s)"
    "callback_settled outcome j (tasks s ! j) s = Some s'"
    by (simp_all split: if_splits)
  then obtain u where u: "tasks s' = (tasks s)[j := u]" "leading u = leading (tasks s ! j)"
    using callback_settled_tasks by blast
  with i t t' show ?thesis by (cases "i = j") auto
next
  case (Resume j now)
  with st have j: "j < length (tasks s)" "resume_task env now j (tasks s ! j) s = Some s'"
    by (simp_all split: if_splits)
  show ?thesis
  proof (cases "i = j")
    case True
    with j t t' i Resume show ?thesis by (cases rs) auto
  next
    case False
    from j(2) obtain u r q where "tasks s' = (release r q (tasks s))[j := u]"
      using resume_task_tasks by blast
    with False i have "leading (tasks s' ! i) = leading (tasks s ! i)"
      by (simp add: release_nth)
    with t t' show ?thesis by simp
  qed
qed

subsection \<open>The sample run, evaluated\<close>

lemma sample_jwt_simps:
  "decode sample_jwt (JStr ''h.fresh.s'') = Inr (JObj [(''exp'', JNum 2000)])"
  "decode sample_jwt (JStr ''h.stale.s'') = Inr (JObj [(''exp'', JNum 900)])"
  "decode sample_jwt (JStr ''h.noexp.s'') = Inr (JObj [(''iat'', JNum 1)])"
  "decode sample_jwt (JStr ''h.close.s'') = Inr (JObj [(''exp'', JNum (7130316841951429 / 4194304))])"
  "decode sample_jwt (JStr ''h.text.s'') = Inr (JObj [(''exp'', JStr ''soon'')])"
  "decode sample_jwt (JStr ''h.bnVsbA.s'') = Inr JNull"
  "decode sample_jwt (JStr ''not-a-jwt'') = Inl InvalidTokenError"
  by (simp_all add: sample_jwt_def jwtDecode_def sample_segments_def)

lemma sample_expiry:
  "isTokenExpired sample_jwt 1000000 (JStr ''h.fresh.s'') = Inr False"
  "isTokenExpired sample_jwt 1000000 (JStr ''h.stale.s'') = Inr True"
  "isTokenExpired sample_jwt 1000000 (JStr ''h.noexp.s'') = Inr True"
  "isTokenExpired sample_jwt 1000000 (JStr ''not-a-jwt'') = Inl InvalidTokenError"
  "isTokenExpired sample_jwt 1000000 JUndefined = Inr True"
  by (simp_all add: isTokenExpired_def getExpiresIn_def getTimestampFromToken_def
        sample_jwt_simps EXPIRE_FUDGE_def round_double_def)

lemmas sample_defs =
  arrivals_def success_def new_pair_def sample_state_def initial_def stale_pair_def
  sample_env_def request_a_def request_b_def request_c_def set_task_def
  getRefreshToken_def getAccessToken_def getAuthTokens_def sample_expiry
  after_callback_def after_failure_def with_accessToken_def setAuthTokens_def
  resolveQueue_def declineQueue_def release_def with_token_def template_def
  new_Error_def refresh_Error_def String_of_error_def network_Error_def protocol_Error_def

lemma run_arrivals:
  "run sample_env (initial stale_pair) arrivals =
     Some (sample_state stale_pair True [1, 2]
             (Refreshing (AwaitCallback (JStr ''r1''))) Queued Queued)"
  by (simp add: sample_defs)

lemma run_success:
  "run sample_env (sample_state stale_pair True [1, 2]
             (Refreshing (AwaitCallback (JStr ''r1''))) Queued Queued) success =
     Some (sample_state new_pair True [1, 2]
             (Refreshing (Finished (Inr (JStr ''new-token'')))) Queued Queued)"
  by (simp add: sample_defs)

lemma step_release:
  "step sample_env (sample_state new_pair True [1, 2]
             (Refreshing (Finished (Inr (JStr ''new-token'')))) Queued Queued) (Resume 0 1000000) =
     Some (sample_state new_pair False []
             (Settled (Inr (request_a\<lparr>headers := [(''Authorization'', ''Bearer new-token'')]\<rparr>)))
             (Released (Inr (JStr ''new-token''))) (Released (Inr (JStr ''new-token''))))"
  by (simp add: sample_defs)

lemma run_append: "run env s (xs @ ys) = (case run env s xs of None \<Rightarrow> None | Some s' \<Rightarrow> run env s' ys)"
  by (induction xs arbitrary: s) (auto split: option.splits)

lemma no_waiter_pending:
  assumes "coordinated s" and "queue s = []" and "k < length (tasks s)"
  shows "\<not> queued (tasks s ! k)"
  using assms by (auto simp: coordinated_def)

lemma leader_resolves:
  assumes inv: "coordinated s" and st: "step env s ev = Some s'" and i: "i < length (tasks s)"
    and t: "tasks s ! i = Interceptor c (Refreshing rs)"
    and t': "tasks s' ! i = Interceptor c (Settled (Inr cfg))"
  shows "\<exists>token. rs = Finished (Inr token)"
proof -
  from leader_returns[OF st i t t'] obtain now res where
    ev: "ev = Resume i now" "rs = Finished res" by blast
  with t st have "tasks s ! i = Interceptor c (Refreshing (Finished res))"
    "step env s (Resume i now) = Some s'" by simp_all
  from leader_settles(5)[OF inv i this] t' ev show ?thesis
    by (cases res) auto
qed

lemma run_failed:
  "run sample_env (initial stale_pair) (arrivals @ [Callback 0 (Inl network_Error)]) =
     Some (sample_state stale_pair True [1, 2]
             (Refreshing (Finished (Inl (new_Error ''Error: Network Error'')))) Queued Queued)"
  using run_arrivals by (simp add: run_append) (simp add: sample_defs)

lemma step_decline:
  "step sample_env
      (sample_state stale_pair True [1, 2]
         (Refreshing (Finished (Inl (new_Error ''Error: Network Error'')))) Queued Queued)
      (Resume 0 1000000) =
     Some (sample_state stale_pair False []
             (Settled (Inl (refresh_Error (new_Error ''Error: Network Error''))))
             (Released (Inl (new_Error ''Error: Network Error'')))
             (Released (Inl (new_Error ''Error: Network Error''))))"
  by (simp add: sample_defs)

lemma unrecognised_shape:
  assumes "\<not> typeof_string v" and "\<forall>fs. v = JObj fs \<longrightarrow> ''accessToken'' \<notin> fst ` set fs"
  shows "after_callback (Inr v) = Finished (Inl (new_Error (String_of_error protocol_Error)))"
    and "\<not> (typeof_object v \<and> truthy (get_prop v ''accessToken''))"
proof -
  have u: "get_prop v ''accessToken'' = JUndefined"
  proof (cases v)
    case (JObj fs)
    with assms(2) have "map_of fs ''accessToken'' = None"
      by (simp add: map_of_eq_None_iff)
    with JObj show ?thesis by simp
  qed simp_all
  then show "\<not> (typeof_object v \<and> truthy (get_prop v ''accessToken''))" by simp
  from u assms(1) show "after_callback (Inr v) =
      Finished (Inl (new_Error (String_of_error protocol_Error)))"
    by (simp add: after_callback_def after_failure_def protocol_Error_def new_Error_def)
qed

lemma direct_storage_done:
  assumes "storage_done i (Direct rs) s = Some s'"
  shows "isRefreshing s' = isRefreshing s \<and> queue s' = queue s \<and>
         (\<exists>rs'. tasks s' = (tasks s)[i := Direct rs']) \<and>
         storage_done i (Direct rs) (s\<lparr>isRefreshing := b, queue := q\<rparr>) =
           Some (s'\<lparr>isRefreshing := b, queue := q\<rparr>)"
  using assms by (cases rs) (auto simp: set_task_def)

lemma log_call_coordinator:
  "log_call i rs (s\<lparr>isRefreshing := b, queue := q\<rparr>) = (log_call i rs s)\<lparr>isRefreshing := b, queue := q\<rparr>"
  by (cases rs) simp_all

lemma direct_resume:
  assumes "resume_task env now i (Direct rs) s = Some s'"
  shows "isRefreshing s' = isRefreshing s \<and> queue s' = queue s \<and>
         (\<exists>rs'. tasks s' = (tasks s)[i := Direct rs']) \<and>
         resume_task env now i (Direct rs) (s\<lparr>isRefreshing := b, queue := q\<rparr>) =
           Some (s'\<lparr>isRefreshing := b, queue := q\<rparr>)"
proof (cases rs)
  case (StorageDone r l)
  have c: "set_task i t (s\<lparr>isRefreshing := b, queue := q\<rparr>) =
        (set_task i t s)\<lparr>isRefreshing := b, queue := q\<rparr>" for t
    by (simp add: set_task_def)
  from assms StorageDone show ?thesis
    by (auto simp: c log_call_coordinator)
qed (use assms in auto)

lemma direct_callback:
  assumes "callback_settled outcome i (Direct rs) s = Some s'"
  shows "isRefreshing s' = isRefreshing s \<and> queue s' = queue s \<and>
         (\<exists>rs'. tasks s' = (tasks s)[i := Direct rs']) \<and>
         callback_settled outcome i (Direct rs) (s\<lparr>isRefreshing := b, queue := q\<rparr>) =
           Some (s'\<lparr>isRefreshing := b, queue := q\<rparr>)"
  using assms by (cases rs) (auto simp: set_task_def)

lemma run_two_direct_calls:
  "run sample_env (initial stale_pair) two_direct_calls =
     Some \<lparr>storage = stale_pair, isRefreshing = False, queue = [],
           tasks = [Direct (AwaitCallback (JStr ''r1'')), Direct (AwaitCallback (JStr ''r1''))],
           calls = [(0, JStr ''r1''), (1, JStr ''r1'')]\<rparr>"
  by (simp add: two_direct_calls_def sample_defs)

section \<open>One call alone agrees with the sequential functions\<close>

text \<open>
  Run on its own, the machine of \<^verbatim>\<open>refreshTokenIfNeeded\<close> ends, within nine steps, in the
  store and with the result that the sequential function computes.
\<close>

lemma solo_Finished [simp]: "solo dec now rr n (Finished res) st = (st, Finished res)"
  by (cases n) simp_all

lemma solo_after_failure:
  "solo dec now rr (Suc (Suc n)) (after_failure error) st =
     (fst (refresh_failed error st), Finished (snd (refresh_failed error st)))"
  by (simp add: after_failure_def refresh_failed_def split: option.splits)

lemma solo_after_callback:
  "solo dec now rr (Suc (Suc (Suc (Suc (Suc n))))) (AwaitCallback rtoken) st =
     (case rr rtoken of
        Inl error \<Rightarrow> (fst (refresh_failed error st), Finished (snd (refresh_failed error st)))
      | Inr newTokens \<Rightarrow>
          if typeof_object newTokens \<and> truthy (get_prop newTokens ''accessToken'')
          then (setAuthTokens (fields_of newTokens) st,
                Finished (Inr (get_prop newTokens ''accessToken'')))
          else if typeof_string newTokens
          then (case setAccessToken newTokens st of
                  Inl error \<Rightarrow>
                    (fst (refresh_failed error st), Finished (snd (refresh_failed error st)))
                | Inr st' \<Rightarrow> (st', Finished (Inr newTokens)))
          else (fst (refresh_failed protocol_Error st),
                Finished (snd (refresh_failed protocol_Error st))))"
proof (cases "rr rtoken")
  case (Inl error)
  then show ?thesis by (simp add: after_callback_def solo_after_failure)
next
  case (Inr newTokens)
  show ?thesis
  proof (cases "typeof_object newTokens \<and> truthy (get_prop newTokens ''accessToken'')")
    case True
    with Inr show ?thesis by (simp add: after_callback_def)
  next
    case False
    note obj = this
    show ?thesis
    proof (cases "typeof_string newTokens")
      case False
      with Inr obj show ?thesis by (auto simp: after_callback_def solo_after_failure)
    next
      case True
      show ?thesis
      proof (cases "with_accessToken newTokens st")
        case (Inl error)
        with Inr obj True show ?thesis
          by (auto simp: after_callback_def setAccessToken_def solo_after_failure)
      next
        case (Inr tokens)
        with \<open>rr rtoken = Inr newTokens\<close> obj True show ?thesis
          by (auto simp: after_callback_def setAccessToken_def)
      qed
    qed
  qed
qed

lemma solo_refreshToken:
  "solo dec now rr (Suc (Suc (Suc (Suc (Suc (Suc (Suc n)))))))
     (AwaitStorage GetItem L_getRefreshToken) st =
     (fst (refreshToken rr st), Finished (snd (refreshToken rr st)))"
proof -
  have unfold: "solo dec now rr (Suc (Suc (Suc (Suc (Suc (Suc (Suc n)))))))
     (AwaitStorage GetItem L_getRefreshToken) st =
     solo dec now rr (Suc (Suc (Suc (Suc (Suc n))))) (resume dec now L_getRefreshToken st) st"
    by (simp del: resume.simps)
  show ?thesis
  proof (cases "getRefreshToken st")
    case (Inl e)
    then show ?thesis unfolding unfold by (simp add: refreshToken_def)
  next
    case (Inr rtoken)
    show ?thesis
    proof (cases "truthy rtoken")
      case False
      with Inr show ?thesis unfolding unfold by (simp add: refreshToken_def)
    next
      case True
      with Inr have "resume dec now L_getRefreshToken st = AwaitCallback rtoken"
        by simp
      then have "solo dec now rr (Suc (Suc (Suc (Suc (Suc n)))))
          (resume dec now L_getRefreshToken st) st =
        solo dec now rr (Suc (Suc (Suc (Suc (Suc n))))) (AwaitCallback rtoken) st"
        by simp
      also have "\<dots> = (fst (refreshToken rr st), Finished (snd (refreshToken rr st)))"
        unfolding solo_after_callback using Inr True
        by (simp add: refreshToken_def split: sum.splits)
      finally show ?thesis unfolding unfold .
    qed
  qed
qed

lemma solo_refreshTokenIfNeeded:
  "solo dec now rr (Suc (Suc (Suc (Suc (Suc (Suc (Suc (Suc (Suc n)))))))))
     (AwaitStorage GetItem L_getAccessToken) st =
     (fst (refreshTokenIfNeeded dec now rr st),
      Finished (snd (refreshTokenIfNeeded dec now rr st)))"
proof -
  let ?m = "Suc (Suc (Suc (Suc (Suc (Suc (Suc n))))))"
  have unfold: "solo dec now rr (Suc (Suc ?m)) (AwaitStorage GetItem L_getAccessToken) st =
     solo dec now rr ?m (resume dec now L_getAccessToken st) st"
    by (simp del: resume.simps)
  have refresh: "solo dec now rr ?m (AwaitStorage GetItem L_getRefreshToken) st =
     (fst (refreshToken rr st), Finished (snd (refreshToken rr st)))"
    by (rule solo_refreshToken)
  show ?thesis
  proof (cases "getAccessToken st")
    case (Inl e)
    then show ?thesis unfolding unfold by (simp add: refreshTokenIfNeeded_def)
  next
    case (Inr accessToken)
    show ?thesis
    proof (cases "truthy accessToken")
      case False
      with Inr have "resume dec now L_getAccessToken st = AwaitStorage GetItem L_getRefreshToken"
        by simp
      with refresh Inr False show ?thesis
        unfolding unfold by (simp add: refreshTokenIfNeeded_def del: solo.simps)
    next
      case True
      show ?thesis
      proof (cases "isTokenExpired dec now accessToken")
        case (Inl e)
        with Inr True show ?thesis unfolding unfold by (simp add: refreshTokenIfNeeded_def)
      next
        case expired: (Inr expired)
        show ?thesis
        proof (cases expired)
          case True
          with Inr \<open>truthy accessToken\<close> expired
          have "resume dec now L_getAccessToken st = AwaitStorage GetItem L_getRefreshToken"
            by simp
          with refresh Inr \<open>truthy accessToken\<close> expired True show ?thesis
            unfolding unfold by (simp add: refreshTokenIfNeeded_def del: solo.simps)
        next
          case False
          with Inr \<open>truthy accessToken\<close> expired show ?thesis
            unfolding unfold by (simp add: refreshTokenIfNeeded_def)
        qed
      qed
    qed
  qed
qed

section \<open>Expiry policy and decoding\<close>




text \<open>
  C4 does not hold as stated: on a token that the decoder rejects, the decoding step throws
  the decoder's error instead of returning undefined, and so does the expiry check.
\<close>

theorem getTimestampFromToken_throws:
  "getTimestampFromToken sample_jwt (JStr ''not-a-jwt'') = Inl InvalidTokenError \<and>
   isTokenExpired sample_jwt 1000000 (JStr ''not-a-jwt'') = Inl InvalidTokenError"
  by (simp add: getTimestampFromToken_def isTokenExpired_def getExpiresIn_def sample_jwt_simps)

text \<open>
  C4, amended. The decoding step has no error handling of its own. It throws exactly the
  error the decoder throws; and when the decoder returns null (or undefined) for the payload,
  it throws the TypeError of reading a property of that. Either error then also leaves the
  expiry check. In every other case it returns the payload's \<open>exp\<close> property as it is, a
  number or not, and undefined if the payload has none; for undefined the expiry check
  answers expired.
\<close>

theorem getTimestampFromToken_decoder:
  "(decode dec token = Inl err \<longrightarrow>
      getTimestampFromToken dec token = Inl err \<and>
      (truthy token \<longrightarrow> isTokenExpired dec now token = Inl err)) \<and>
   (decode dec token = Inr decoded \<and> (decoded = JNull \<or> decoded = JUndefined) \<longrightarrow>
      getTimestampFromToken dec token = Inl (cannot_read decoded) \<and>
      (truthy token \<longrightarrow> isTokenExpired dec now token = Inl (cannot_read decoded))) \<and>
   (decode dec token = Inr decoded \<and> decoded \<noteq> JNull \<and> decoded \<noteq> JUndefined \<longrightarrow>
      getTimestampFromToken dec token = Inr (get_prop decoded ''exp'') \<and>
      (get_prop decoded ''exp'' = JUndefined \<longrightarrow> isTokenExpired dec now token = Inr True))"
  by (auto simp: getTimestampFromToken_def isTokenExpired_def getExpiresIn_def EXPIRE_FUDGE_def)

text \<open>
  C4, amended, at a rejected token, a null payload, a numeric claim, a claim that is a text
  and a payload without the claim.
\<close>

theorem getTimestampFromToken_decoder_witness:
  "getTimestampFromToken sample_jwt (JStr ''not-a-jwt'') = Inl InvalidTokenError \<and>
   isTokenExpired sample_jwt 1000000 (JStr ''not-a-jwt'') = Inl InvalidTokenError \<and>
   getTimestampFromToken sample_jwt (JStr ''h.bnVsbA.s'') =
     Inl (JsError ''TypeError'' ''Cannot read properties of null (reading 'exp')'' None) \<and>
   isTokenExpired sample_jwt 1000000 (JStr ''h.bnVsbA.s'') =
     Inl (JsError ''TypeError'' ''Cannot read properties of null (reading 'exp')'' None) \<and>
   getTimestampFromToken sample_jwt (JStr ''h.stale.s'') = Inr (JNum 900) \<and>
   getTimestampFromToken sample_jwt (JStr ''h.text.s'') = Inr (JStr ''soon'') \<and>
   getTimestampFromToken sample_jwt (JStr ''h.noexp.s'') = Inr JUndefined \<and>
   isTokenExpired sample_jwt 1000000 (JStr ''h.noexp.s'') = Inr True"
  using getTimestampFromToken_decoder
      [where dec = sample_jwt and token = "JStr ''not-a-jwt''" and err = InvalidTokenError
         and now = 1000000 and decoded = JNull]
    getTimestampFromToken_decoder
      [where dec = sample_jwt and token = "JStr ''h.bnVsbA.s''" and err = InvalidTokenError
         and now = 1000000 and decoded = JNull]
    getTimestampFromToken_decoder
      [where dec = sample_jwt and token = "JStr ''h.stale.s''" and err = InvalidTokenError
         and now = 1000000 and decoded = "JObj [(''exp'', JNum 900)]"]
    getTimestampFromToken_decoder
      [where dec = sample_jwt and token = "JStr ''h.text.s''" and err = InvalidTokenError
         and now = 1000000 and decoded = "JObj [(''exp'', JStr ''soon'')]"]
    getTimestampFromToken_decoder
      [where dec = sample_jwt and token = "JStr ''h.noexp.s''" and err = InvalidTokenError
         and now = 1000000 and decoded = "JObj [(''iat'', JNum 1)]"]
  by (simp add: sample_jwt_simps cannot_read_def)

section \<open>Refreshing without interference\<close>

lemma stale_pair_simps:
  "getAccessToken stale_pair = Inr (JStr ''h.stale.s'')"
  "getRefreshToken stale_pair = Inr (JStr ''r1'')"
  by (simp_all add: stale_pair_def getAccessToken_def getRefreshToken_def getAuthTokens_def)

text \<open>
  C5 does not hold as stated: with nothing stored, so that no refresh token is stored,
  \<^verbatim>\<open>refreshTokenIfNeeded\<close> does not return undefined; it fails with
  \<^verbatim>\<open>No refresh token available\<close>.
\<close>

theorem refreshTokenIfNeeded_no_tokens:
  "getRefreshToken None = Inr JUndefined \<and>
   refreshTokenIfNeeded sample_jwt 1000000 (\<lambda>r. Inr (JStr ''new-token'')) None =
     (None, Inl (JsError ''Error'' ''No refresh token available'' None))"
  by (simp add: refreshTokenIfNeeded_def refreshToken_def getAccessToken_def getRefreshToken_def
        getAuthTokens_def new_Error_def)

text \<open>
  C5, amended. When no refresh token is stored, \<^verbatim>\<open>refreshTokenIfNeeded\<close> fails with
  \<^verbatim>\<open>No refresh token available\<close>, the store unchanged, if the stored access token is
  missing or expired, and returns the stored access token if that is present and not expired.
  Passing on without failing is what the interceptor does, at line 233, before it calls
  \<^verbatim>\<open>refreshTokenIfNeeded\<close>: it resolves with the request unchanged.
\<close>

theorem refreshTokenIfNeeded_without_refresh_token:
  "getRefreshToken st = Inr rtoken \<and> \<not> truthy rtoken \<and> getAccessToken st = Inr accessToken \<longrightarrow>
     (isTokenExpired dec now accessToken = Inr True \<longrightarrow>
        refreshTokenIfNeeded dec now requestRefresh st =
          (st, Inl (new_Error ''No refresh token available''))) \<and>
     (isTokenExpired dec now accessToken = Inr False \<longrightarrow>
        refreshTokenIfNeeded dec now requestRefresh st = (st, Inr accessToken)) \<and>
     resume_task env now i (Interceptor c (Read st)) s =
       Some (set_task i (Interceptor c (Settled (Inr c))) s)"
  by (auto simp: refreshTokenIfNeeded_def refreshToken_def isTokenExpired_def)

text \<open>
  C5, amended, with nothing stored and with a pair that holds only a fresh access token.
\<close>

theorem refreshTokenIfNeeded_without_refresh_token_witness:
  "refreshTokenIfNeeded sample_jwt 1000000 (\<lambda>r. Inr (JStr ''new-token'')) None =
     (None, Inl (new_Error ''No refresh token available'')) \<and>
   refreshTokenIfNeeded sample_jwt 1000000 (\<lambda>r. Inr (JStr ''new-token''))
       (Some (Serialized [(''accessToken'', JStr ''h.fresh.s'')])) =
     (Some (Serialized [(''accessToken'', JStr ''h.fresh.s'')]), Inr (JStr ''h.fresh.s'')) \<and>
   map_option tasks
     (resume_task sample_env 1000000 0 (Interceptor request_a (Read None))
        ((initial None)\<lparr>tasks := [Interceptor request_a (Read None)]\<rparr>)) =
     Some [Interceptor request_a (Settled (Inr request_a))]"
  using refreshTokenIfNeeded_without_refresh_token
      [of None JUndefined JUndefined sample_jwt 1000000 "\<lambda>r. Inr (JStr ''new-token'')"
          sample_env 0 request_a "(initial None)\<lparr>tasks := [Interceptor request_a (Read None)]\<rparr>"]
    refreshTokenIfNeeded_without_refresh_token
      [of "Some (Serialized [(''accessToken'', JStr ''h.fresh.s'')])" JUndefined
          "JStr ''h.fresh.s''" sample_jwt 1000000 "\<lambda>r. Inr (JStr ''new-token'')"
          sample_env 0 request_a "(initial None)\<lparr>tasks := [Interceptor request_a (Read None)]\<rparr>"]
  by (simp add: getRefreshToken_def getAccessToken_def getAuthTokens_def sample_expiry
        set_task_def initial_def)

text \<open>
  C2. When a refresh token is stored and the promise of \<^verbatim>\<open>requestRefresh\<close> is rejected, the
  stored pair is deleted if and only if the rejection carries status 401 or 422. In that case
  the removal is awaited before the error is thrown, and \<^verbatim>\<open>isLoggedIn\<close> is false afterwards.
  For every other rejection the store is left as it was, so \<^verbatim>\<open>getRefreshToken\<close> still returns
  the original token, and the error is thrown at once.
\<close>

theorem refresh_failure_classification:
  "getRefreshToken st = Inr rtoken \<and> truthy rtoken \<and> requestRefresh rtoken = Inl error \<longrightarrow>
     (fst (refreshToken requestRefresh st) = None \<longleftrightarrow>
        err_status error = Some 401 \<or> err_status error = Some 422) \<and>
     (\<forall>status. err_status error = Some status \<and> (status = 401 \<or> status = 422) \<longrightarrow>
        refreshToken requestRefresh st =
          (None, Inl (new_Error (''Got '' @ status_text status @
                                  '' on token refresh; clearing both auth tokens''))) \<and>
        isLoggedIn (fst (refreshToken requestRefresh st)) = Inr False \<and>
        after_callback (Inl error) = AwaitStorage RemoveItem (L_removeItem status)) \<and>
     (err_status error \<noteq> Some 401 \<and> err_status error \<noteq> Some 422 \<longrightarrow>
        refreshToken requestRefresh st = (st, Inl (new_Error (String_of_error error))) \<and>
        getRefreshToken (fst (refreshToken requestRefresh st)) = Inr rtoken \<and>
        after_callback (Inl error) = Finished (Inl (new_Error (String_of_error error))))"
proof -
  have "st \<noteq> None" if "getRefreshToken st = Inr rtoken" "truthy rtoken"
    using that by (cases st) (auto simp: getRefreshToken_def getAuthTokens_def)
  then show ?thesis
    by (auto simp: refreshToken_def refresh_failed_def after_callback_def after_failure_def
          isLoggedIn_def getRefreshToken_def getAuthTokens_def
        split: option.splits)
qed

text \<open>C2, for a rejection with status 401 and for a network error without a response.\<close>

theorem refresh_failure_classification_witness:
  "refreshToken (\<lambda>r. Inl unauthorized_Error) stale_pair =
     (None, Inl (new_Error ''Got 401 on token refresh; clearing both auth tokens'')) \<and>
   isLoggedIn (fst (refreshToken (\<lambda>r. Inl unauthorized_Error) stale_pair)) = Inr False \<and>
   refreshToken (\<lambda>r. Inl network_Error) stale_pair =
     (stale_pair, Inl (new_Error ''Error: Network Error'')) \<and>
   getRefreshToken (fst (refreshToken (\<lambda>r. Inl network_Error) stale_pair)) = Inr (JStr ''r1'')"
  using refresh_failure_classification
      [of stale_pair "JStr ''r1''" "\<lambda>r. Inl unauthorized_Error" unauthorized_Error]
    refresh_failure_classification
      [of stale_pair "JStr ''r1''" "\<lambda>r. Inl network_Error" network_Error]
  by (simp add: stale_pair_simps unauthorized_Error_def network_Error_def status_text_def
        String_of_error_def isLoggedIn_def getRefreshToken_def getAuthTokens_def stale_pair_def)

text \<open>
  C7. When the stored access token is expired, a refresh token is stored and
  \<^verbatim>\<open>requestRefresh\<close> resolves to a bare string, \<^verbatim>\<open>refreshTokenIfNeeded\<close> stores that string
  as the access token, leaves every other stored field as it was, so the refresh token is
  unchanged, and returns the new token.
\<close>

theorem bare_token_refresh:
  "st = Some (Serialized tokens) \<and>
   isTokenExpired dec now (get_prop (JObj tokens) ''accessToken'') = Inr True \<and>
   get_prop (JObj tokens) ''refreshToken'' = rtoken \<and> truthy rtoken \<and>
   requestRefresh rtoken = Inr (JStr new) \<longrightarrow>
     refreshTokenIfNeeded dec now requestRefresh st =
       (Some (Serialized (AList.update ''accessToken'' (JStr new) tokens)), Inr (JStr new)) \<and>
     getAccessToken (fst (refreshTokenIfNeeded dec now requestRefresh st)) = Inr (JStr new) \<and>
     getRefreshToken (fst (refreshTokenIfNeeded dec now requestRefresh st)) = Inr rtoken"
  by (auto simp: refreshTokenIfNeeded_def refreshToken_def getAccessToken_def
        getRefreshToken_def getAuthTokens_def setAccessToken_def with_accessToken_def
        setAuthTokens_def update_conv')

text \<open>
  C7, the scenario of the specification: the access token expired 100 seconds ago, the
  refresh token is \<open>r1\<close> and the callback resolves to \<open>new-token\<close>.
\<close>

theorem bare_token_refresh_witness:
  "refreshTokenIfNeeded sample_jwt 1000000 (\<lambda>r. Inr (JStr ''new-token'')) stale_pair =
     (Some (Serialized [(''accessToken'', JStr ''new-token''), (''refreshToken'', JStr ''r1'')]),
      Inr (JStr ''new-token'')) \<and>
   getAccessToken (fst (refreshTokenIfNeeded sample_jwt 1000000 (\<lambda>r. Inr (JStr ''new-token''))
     stale_pair)) = Inr (JStr ''new-token'') \<and>
   getRefreshToken (fst (refreshTokenIfNeeded sample_jwt 1000000 (\<lambda>r. Inr (JStr ''new-token''))
     stale_pair)) = Inr (JStr ''r1'')"
  using bare_token_refresh
      [of stale_pair "[(''accessToken'', JStr ''h.stale.s''), (''refreshToken'', JStr ''r1'')]"
          sample_jwt 1000000 "JStr ''r1''" "\<lambda>r. Inr (JStr ''new-token'')" "''new-token''"]
  by (simp add: stale_pair_def sample_expiry getAccessToken_def getRefreshToken_def
        getAuthTokens_def)

section \<open>The coordinator under every interleaving\<close>

text \<open>
  C9. In every state that some interleaving of calls reaches, the waiter queue is empty
  whenever \<^verbatim>\<open>isRefreshing\<close> is false. A refreshing call whose refresh path has finished, with
  a token or with an error, can always take its last step, and that step clears the flag,
  empties the queue and settles the call, all at once; and whenever a step settles a
  refreshing call, the state it leaves is idle with an empty queue.
\<close>

theorem coordinator_state_invariant:
  "run env (initial st) evs = Some s \<longrightarrow>
     (\<not> isRefreshing s \<longrightarrow> queue s = []) \<and>
     (i < length (tasks s) \<and> tasks s ! i = Interceptor c (Refreshing (Finished res)) \<longrightarrow>
        (\<exists>s1. step env s (Resume i now) = Some s1 \<and> \<not> isRefreshing s1 \<and> queue s1 = [] \<and>
           (\<exists>out. tasks s1 ! i = Interceptor c (Settled out)))) \<and>
     (i < length (tasks s) \<and> tasks s ! i = Interceptor c (Refreshing rs) \<and>
      step env s ev = Some s' \<and> tasks s' ! i = Interceptor c (Settled out) \<longrightarrow>
        \<not> isRefreshing s' \<and> queue s' = [])"
proof
  assume r: "run env (initial st) evs = Some s"
  then have inv: "coordinated s" by (rule reachable_invariants)
  have a: "\<not> isRefreshing s \<longrightarrow> queue s = []"
    using inv by (simp add: idle_queue_empty)
  have b: "\<exists>s1. step env s (Resume i now) = Some s1 \<and> \<not> isRefreshing s1 \<and> queue s1 = [] \<and>
           (\<exists>out. tasks s1 ! i = Interceptor c (Settled out))"
    if i: "i < length (tasks s)" and t: "tasks s ! i = Interceptor c (Refreshing (Finished res))"
  proof -
    from i t obtain s1 where s1: "step env s (Resume i now) = Some s1"
      by (cases res) simp_all
    from leader_settles[OF inv i t s1] s1 show ?thesis by blast
  qed
  have c: "\<not> isRefreshing s' \<and> queue s' = []"
    if i: "i < length (tasks s)" and t: "tasks s ! i = Interceptor c (Refreshing rs)"
      and st: "step env s ev = Some s'" and t': "tasks s' ! i = Interceptor c (Settled out)"
  proof -
    from leader_returns[OF st i t t'] obtain now' res' where
      ev: "ev = Resume i now'" "rs = Finished res'" by blast
    with t st have "tasks s ! i = Interceptor c (Refreshing (Finished res'))"
      "step env s (Resume i now') = Some s'" by simp_all
    from leader_settles(1,2)[OF inv i this] show ?thesis by simp
  qed
  from a b c
  show "(\<not> isRefreshing s \<longrightarrow> queue s = []) \<and>
     (i < length (tasks s) \<and> tasks s ! i = Interceptor c (Refreshing (Finished res)) \<longrightarrow>
        (\<exists>s1. step env s (Resume i now) = Some s1 \<and> \<not> isRefreshing s1 \<and> queue s1 = [] \<and>
           (\<exists>out. tasks s1 ! i = Interceptor c (Settled out)))) \<and>
     (i < length (tasks s) \<and> tasks s ! i = Interceptor c (Refreshing rs) \<and>
      step env s ev = Some s' \<and> tasks s' ! i = Interceptor c (Settled out) \<longrightarrow>
        \<not> isRefreshing s' \<and> queue s' = [])"
    by blast
qed

text \<open>
  C9, in the sample run: before the first request the state is idle and the queue empty;
  when the refreshing call returns, two waiters are released and the state is idle again.
\<close>

theorem coordinator_state_invariant_witness:
  "run sample_env (initial stale_pair) (arrivals @ success) =
     Some (sample_state new_pair True [1, 2]
             (Refreshing (Finished (Inr (JStr ''new-token'')))) Queued Queued) \<and>
   step sample_env
       (sample_state new_pair True [1, 2]
          (Refreshing (Finished (Inr (JStr ''new-token'')))) Queued Queued)
       (Resume 0 1000000) =
     Some (sample_state new_pair False []
             (Settled (Inr (request_a\<lparr>headers := [(''Authorization'', ''Bearer new-token'')]\<rparr>)))
             (Released (Inr (JStr ''new-token''))) (Released (Inr (JStr ''new-token'')))) \<and>
   \<not> isRefreshing (sample_state new_pair False []
             (Settled (Inr (request_a\<lparr>headers := [(''Authorization'', ''Bearer new-token'')]\<rparr>)))
             (Released (Inr (JStr ''new-token''))) (Released (Inr (JStr ''new-token'')))) \<and>
   queue (sample_state new_pair False []
             (Settled (Inr (request_a\<lparr>headers := [(''Authorization'', ''Bearer new-token'')]\<rparr>)))
             (Released (Inr (JStr ''new-token''))) (Released (Inr (JStr ''new-token'')))) = [] \<and>
   queue (initial stale_pair) = []"
  using coordinator_state_invariant
      [where env = sample_env and st = stale_pair and evs = "arrivals @ success"
         and s = "sample_state new_pair True [1, 2]
             (Refreshing (Finished (Inr (JStr ''new-token'')))) Queued Queued"
         and i = 0 and c = request_a and res = "Inr (JStr ''new-token'')" and now = 1000000
         and rs = "Finished (Inr (JStr ''new-token''))" and ev = "Resume 0 1000000"
         and s' = "sample_state new_pair False []
             (Settled (Inr (request_a\<lparr>headers := [(''Authorization'', ''Bearer new-token'')]\<rparr>)))
             (Released (Inr (JStr ''new-token''))) (Released (Inr (JStr ''new-token'')))"
         and out = "Inr (request_a\<lparr>headers := [(''Authorization'', ''Bearer new-token'')]\<rparr>)"]
    coordinator_state_invariant
      [where env = sample_env and st = stale_pair and evs = "[]" and s = "initial stale_pair"
         and i = 0]
    run_arrivals run_success step_release
  by (simp add: run_append) (simp add: sample_state_def initial_def)

text \<open>
  C1 fails where the refresh fails, on a Promise that behaves as ECMA-262 says. Three requests
  reach the interceptor while the stored access token is stale: the first refreshes, the other
  two arrive while that refresh is outstanding and are queued, and \<^verbatim>\<open>requestRefresh\<close> is
  invoked once. Its promise is rejected with a network error. The refreshing call rejects
  both queued promises with the error of the refresh, yet neither waiting call settles with
  it: the handler \<^verbatim>\<open>Promise.reject\<close>, called without its receiver, throws, and each call
  rejects with that TypeError, which says nothing of the refresh. The same happens when the
  rejection carries status 401 and the stored pair is removed on the way.
\<close>

theorem waiters_reject_with_TypeError:
  "run standard_env (initial stale_pair) arrivals =
     Some (sample_state stale_pair True [1, 2]
             (Refreshing (AwaitCallback (JStr ''r1''))) Queued Queued) \<and>
   run standard_env (initial stale_pair)
       (arrivals @ [Callback 0 (Inl network_Error), Resume 0 1000000]) =
     Some (sample_state stale_pair False []
             (Settled (Inl (refresh_Error (new_Error ''Error: Network Error''))))
             (Released (Inl (new_Error ''Error: Network Error'')))
             (Released (Inl (new_Error ''Error: Network Error'')))) \<and>
   run standard_env (initial stale_pair) (arrivals @ failure) =
     Some (sample_state stale_pair False []
             (Settled (Inl (JsError ''Error''
                ''Unable to refresh access token for request due to token refresh error: Error: Network Error''
                None)))
             (Settled (Inl (JsError ''TypeError'' ''PromiseReject called on non-object'' None)))
             (Settled (Inl (JsError ''TypeError'' ''PromiseReject called on non-object'' None)))) \<and>
   run standard_env (initial stale_pair)
       (arrivals @ [Callback 0 (Inl unauthorized_Error), Storage_done 0, Resume 0 1000000,
                    Resume 0 1000000]) =
     Some (sample_state None False []
             (Settled (Inl (refresh_Error
                (new_Error ''Got 401 on token refresh; clearing both auth tokens''))))
             (Released (Inl (new_Error ''Got 401 on token refresh; clearing both auth tokens'')))
             (Released (Inl (new_Error ''Got 401 on token refresh; clearing both auth tokens'')))) \<and>
   run standard_env (initial stale_pair)
       (arrivals @ [Callback 0 (Inl unauthorized_Error), Storage_done 0, Resume 0 1000000,
                    Resume 0 1000000, Resume 1 1000000, Resume 2 1000000]) =
     Some (sample_state None False []
             (Settled (Inl (refresh_Error
                (new_Error ''Got 401 on token refresh; clearing both auth tokens''))))
             (Settled (Inl (JsError ''TypeError'' ''PromiseReject called on non-object'' None)))
             (Settled (Inl (JsError ''TypeError'' ''PromiseReject called on non-object'' None))))"
proof -
  have a: "run standard_env (initial stale_pair) arrivals =
     Some (sample_state stale_pair True [1, 2]
             (Refreshing (AwaitCallback (JStr ''r1''))) Queued Queued)"
    by (simp add: standard_env_def sample_defs)
  then show ?thesis
    by (simp add: run_append)
       (simp add: failure_def standard_env_def Promise_reject_unbound_def sample_defs
          unauthorized_Error_def status_text_def)
qed

text \<open>
  The rest of C1 holds in every state that some interleaving of interceptor calls reaches. (A
  call arrives at the coordinator when, having found a stored refresh token, it tests the
  flag.) At most one call is on the refresh path, and \<^verbatim>\<open>isRefreshing\<close> is true exactly while
  there is one; no call has invoked \<^verbatim>\<open>requestRefresh\<close> more than once, the call that awaits
  the callback has invoked it exactly once, and a queued call has not invoked it at all. A
  call that arrives sets the flag in the same uninterrupted step in which it found it clear,
  before its first await on the refresh path, and is queued if it found the flag set. The flag
  is cleared only by the step in which the refreshing call, its refresh path finished with
  result \<open>res\<close>, releases every queued waiter with that same \<open>res\<close> and empties the queue; a
  waiter released with a token then settles with it, and one released with an error settles
  with what the rejection handler makes of the error.
\<close>

lemma single_flight:
  "run env (initial st) evs = Some s \<longrightarrow>
     (i < length (tasks s) \<and> j < length (tasks s) \<and>
      leading (tasks s ! i) \<and> leading (tasks s ! j) \<longrightarrow> i = j) \<and>
     (isRefreshing s \<longleftrightarrow> (\<exists>k<length (tasks s). leading (tasks s ! k))) \<and>
     invocations s n \<le> 1 \<and>
     (i < length (tasks s) \<and> tasks s ! i = Interceptor c (Refreshing (AwaitCallback rtoken)) \<longrightarrow>
        invocations s i = 1) \<and>
     (\<forall>w\<in>set (queue s).
        w < length (tasks s) \<and> (\<exists>cw. tasks s ! w = Interceptor cw Queued) \<and>
        invocations s w = 0) \<and>
     (a < length (tasks s) \<and> tasks s ! a = Interceptor ca (Read r) \<and>
      getRefreshToken r = Inr ra \<and> truthy ra \<longrightarrow>
        step env s (Resume a now) =
          Some (if isRefreshing s
                then set_task a (Interceptor ca Queued) (s\<lparr>queue := queue s @ [a]\<rparr>)
                else set_task a
                       (Interceptor ca (Refreshing (AwaitStorage GetItem L_getAccessToken)))
                       (s\<lparr>isRefreshing := True\<rparr>))) \<and>
     (step env s ev = Some s' \<and> isRefreshing s \<and> \<not> isRefreshing s' \<longrightarrow>
        (\<exists>l now' cl res.
           ev = Resume l now' \<and> l < length (tasks s) \<and>
           tasks s ! l = Interceptor cl (Refreshing (Finished res)) \<and>
           queue s' = [] \<and> calls s' = calls s \<and>
           (\<forall>w\<in>set (queue s). \<exists>cw. tasks s ! w = Interceptor cw Queued \<and>
              tasks s' ! w = Interceptor cw (Released res)))) \<and>
     (b < length (tasks s) \<and> tasks s ! b = Interceptor cb (Released res) \<longrightarrow>
        step env s (Resume b now) =
          Some (set_task b (Interceptor cb (Settled (case res of
                  Inl e \<Rightarrow> Inl (reject_handler env e)
                | Inr token \<Rightarrow> Inr (with_token env cb token)))) s))"
proof
  assume r: "run env (initial st) evs = Some s"
  then have inv: "coordinated s" and acc: "accounted s"
    by (rule reachable_invariants)+
  have p1: "i < length (tasks s) \<and> j < length (tasks s) \<and>
      leading (tasks s ! i) \<and> leading (tasks s ! j) \<longrightarrow> i = j"
    using unique_leader[OF inv] by blast
  have p2: "isRefreshing s \<longleftrightarrow> (\<exists>k<length (tasks s). leading (tasks s ! k))"
    using inv by (rule flag_iff_leader)
  have p3: "invocations s n \<le> 1"
    using acc by (rule invocations_bounds)
  have p4: "i < length (tasks s) \<and>
      tasks s ! i = Interceptor c (Refreshing (AwaitCallback rtoken)) \<longrightarrow> invocations s i = 1"
    using invocations_bounds(2,3)[OF acc, of i] by auto
  have p5: "\<forall>w\<in>set (queue s).
        w < length (tasks s) \<and> (\<exists>cw. tasks s ! w = Interceptor cw Queued) \<and>
        invocations s w = 0"
  proof
    fix w assume "w \<in> set (queue s)"
    with inv have w: "w < length (tasks s) \<and> (\<exists>cw. tasks s ! w = Interceptor cw Queued)"
      by (rule queue_members)
    with invocations_bounds(3)[OF acc, of w] have "invocations s w = 0" by auto
    with w show "w < length (tasks s) \<and> (\<exists>cw. tasks s ! w = Interceptor cw Queued) \<and>
        invocations s w = 0" by simp
  qed
  have p6: "a < length (tasks s) \<and> tasks s ! a = Interceptor ca (Read r) \<and>
      getRefreshToken r = Inr ra \<and> truthy ra \<longrightarrow>
        step env s (Resume a now) =
          Some (if isRefreshing s
                then set_task a (Interceptor ca Queued) (s\<lparr>queue := queue s @ [a]\<rparr>)
                else set_task a
                       (Interceptor ca (Refreshing (AwaitStorage GetItem L_getAccessToken)))
                       (s\<lparr>isRefreshing := True\<rparr>))"
    using arrival_resumes by blast
  have p7: "\<exists>l now' cl res.
           ev = Resume l now' \<and> l < length (tasks s) \<and>
           tasks s ! l = Interceptor cl (Refreshing (Finished res)) \<and>
           queue s' = [] \<and> calls s' = calls s \<and>
           (\<forall>w\<in>set (queue s). \<exists>cw. tasks s ! w = Interceptor cw Queued \<and>
              tasks s' ! w = Interceptor cw (Released res))"
    if st: "step env s ev = Some s'" and f: "isRefreshing s" "\<not> isRefreshing s'"
  proof -
    from flag_cleared_by_leader[OF st f] obtain l now' cl res where
      l: "ev = Resume l now'" "l < length (tasks s)"
        "tasks s ! l = Interceptor cl (Refreshing (Finished res))"
      by blast
    from st l(1) have st': "step env s (Resume l now') = Some s'" by simp
    from leader_settles(2,4,6)[OF inv l(2,3) st'] l show ?thesis by blast
  qed
  have p8: "b < length (tasks s) \<and> tasks s ! b = Interceptor cb (Released res) \<longrightarrow>
        step env s (Resume b now) =
          Some (set_task b (Interceptor cb (Settled (case res of
                  Inl e \<Rightarrow> Inl (reject_handler env e)
                | Inr token \<Rightarrow> Inr (with_token env cb token)))) s)"
    using waiter_settles by blast
  from p1 p2 p3 p4 p5 p6 p7 p8
  show "(i < length (tasks s) \<and> j < length (tasks s) \<and>
      leading (tasks s ! i) \<and> leading (tasks s ! j) \<longrightarrow> i = j) \<and>
     (isRefreshing s \<longleftrightarrow> (\<exists>k<length (tasks s). leading (tasks s ! k))) \<and>
     invocations s n \<le> 1 \<and>
     (i < length (tasks s) \<and> tasks s ! i = Interceptor c (Refreshing (AwaitCallback rtoken)) \<longrightarrow>
        invocations s i = 1) \<and>
     (\<forall>w\<in>set (queue s).
        w < length (tasks s) \<and> (\<exists>cw. tasks s ! w = Interceptor cw Queued) \<and>
        invocations s w = 0) \<and>
     (a < length (tasks s) \<and> tasks s ! a = Interceptor ca (Read r) \<and>
      getRefreshToken r = Inr ra \<and> truthy ra \<longrightarrow>
        step env s (Resume a now) =
          Some (if isRefreshing s
                then set_task a (Interceptor ca Queued) (s\<lparr>queue := queue s @ [a]\<rparr>)
                else set_task a
                       (Interceptor ca (Refreshing (AwaitStorage GetItem L_getAccessToken)))
                       (s\<lparr>isRefreshing := True\<rparr>))) \<and>
     (step env s ev = Some s' \<and> isRefreshing s \<and> \<not> isRefreshing s' \<longrightarrow>
        (\<exists>l now' cl res.
           ev = Resume l now' \<and> l < length (tasks s) \<and>
           tasks s ! l = Interceptor cl (Refreshing (Finished res)) \<and>
           queue s' = [] \<and> calls s' = calls s \<and>
           (\<forall>w\<in>set (queue s). \<exists>cw. tasks s ! w = Interceptor cw Queued \<and>
              tasks s' ! w = Interceptor cw (Released res)))) \<and>
     (b < length (tasks s) \<and> tasks s ! b = Interceptor cb (Released res) \<longrightarrow>
        step env s (Resume b now) =
          Some (set_task b (Interceptor cb (Settled (case res of
                  Inl e \<Rightarrow> Inl (reject_handler env e)
                | Inr token \<Rightarrow> Inr (with_token env cb token)))) s))"
    by (intro conjI) blast+
qed

text \<open>
  C6 does not hold as stated: in the sample run with a rejected callback and the most
  favourable rejection handler (it passes the reason on), the two waiters are rejected with the
  refresh error, but the original caller is rejected with a different error, a new one that
  wraps the refresh error's message.
\<close>

theorem waiters_and_caller_get_different_errors:
  "run sample_env (initial stale_pair) (arrivals @ failure) =
     Some (sample_state stale_pair False []
             (Settled (Inl (JsError ''Error''
                ''Unable to refresh access token for request due to token refresh error: Error: Network Error''
                None)))
             (Settled (Inl (JsError ''Error'' ''Error: Network Error'' None)))
             (Settled (Inl (JsError ''Error'' ''Error: Network Error'' None)))) \<and>
   JsError ''Error''
     ''Unable to refresh access token for request due to token refresh error: Error: Network Error''
     None \<noteq> JsError ''Error'' ''Error: Network Error'' None"
  using run_arrivals by (simp add: run_append) (simp add: failure_def sample_defs)

text \<open>
  C6, amended. When the refresh path of the refreshing call has failed with \<open>error\<close>, its
  next step rejects every queued waiter with that same \<open>error\<close>, each of them queued once;
  afterwards no call is left queued, the state is idle and the store untouched; each released
  waiter's call then rejects, with what the rejection handler makes of \<open>error\<close>. The original
  caller is rejected too, not with \<open>error\<close> itself but with a new error whose message is
  \<^verbatim>\<open>Unable to refresh access token for request due to token refresh error: \<close> followed by
  the message of \<open>error\<close>. And a refreshing call resolves with a request only if its refresh
  path produced a token.
\<close>

theorem refresh_failure_propagation:
  "run env (initial st) evs = Some s \<longrightarrow>
     (l < length (tasks s) \<and>
      tasks s ! l = Interceptor c (Refreshing (Finished (Inl error))) \<longrightarrow>
        distinct (queue s) \<and>
        (\<exists>s'. step env s (Resume l now) = Some s' \<and>
           tasks s' ! l = Interceptor c (Settled (Inl (refresh_Error error))) \<and>
           err_message (refresh_Error error) =
             ''Unable to refresh access token for request due to token refresh error: '' @
             err_message error \<and>
           queue s' = [] \<and> \<not> isRefreshing s' \<and> storage s' = storage s \<and>
           (\<forall>k<length (tasks s'). \<not> queued (tasks s' ! k)) \<and>
           (\<forall>w\<in>set (queue s). \<exists>cw.
              tasks s ! w = Interceptor cw Queued \<and>
              tasks s' ! w = Interceptor cw (Released (Inl error)) \<and>
              step env s' (Resume w now') =
                Some (set_task w (Interceptor cw (Settled (Inl (reject_handler env error))))
                        s')))) \<and>
     (i < length (tasks s) \<and> tasks s ! i = Interceptor ci (Refreshing rs) \<and>
      step env s ev = Some s1 \<and> tasks s1 ! i = Interceptor ci (Settled (Inr cfg)) \<longrightarrow>
        (\<exists>token. rs = Finished (Inr token)))"
proof
  assume r: "run env (initial st) evs = Some s"
  then have inv: "coordinated s"
    by (rule reachable_invariants)
  have failing: "distinct (queue s) \<and>
        (\<exists>s'. step env s (Resume l now) = Some s' \<and>
           tasks s' ! l = Interceptor c (Settled (Inl (refresh_Error error))) \<and>
           err_message (refresh_Error error) =
             ''Unable to refresh access token for request due to token refresh error: '' @
             err_message error \<and>
           queue s' = [] \<and> \<not> isRefreshing s' \<and> storage s' = storage s \<and>
           (\<forall>k<length (tasks s'). \<not> queued (tasks s' ! k)) \<and>
           (\<forall>w\<in>set (queue s). \<exists>cw.
              tasks s ! w = Interceptor cw Queued \<and>
              tasks s' ! w = Interceptor cw (Released (Inl error)) \<and>
              step env s' (Resume w now') =
                Some (set_task w (Interceptor cw (Settled (Inl (reject_handler env error))))
                        s')))"
    if l: "l < length (tasks s)"
      and t: "tasks s ! l = Interceptor c (Refreshing (Finished (Inl error)))"
  proof -
    from l t obtain s' where st: "step env s (Resume l now) = Some s'" by simp
    from inv st have inv': "coordinated s'" by (rule coordinated_step)
    note ls = leader_settles[OF inv l t st]
    have len: "length (tasks s') = length (tasks s)"
      using st l t by (auto simp: declineQueue_def)
    have pending: "\<forall>k<length (tasks s'). \<not> queued (tasks s' ! k)"
      using no_waiter_pending[OF inv' ls(2)] by blast
    have waiters: "\<forall>w\<in>set (queue s). \<exists>cw.
           tasks s ! w = Interceptor cw Queued \<and>
           tasks s' ! w = Interceptor cw (Released (Inl error)) \<and>
           step env s' (Resume w now') =
             Some (set_task w (Interceptor cw (Settled (Inl (reject_handler env error)))) s')"
    proof
      fix w assume w: "w \<in> set (queue s)"
      with ls(6) obtain cw where cw: "tasks s ! w = Interceptor cw Queued"
        "tasks s' ! w = Interceptor cw (Released (Inl error))" by blast
      from inv w have "w < length (tasks s')" using queue_members len by simp
      with cw(2) have "step env s' (Resume w now') =
             Some (set_task w (Interceptor cw (Settled (Inl (reject_handler env error)))) s')"
        by simp
      with cw show "\<exists>cw.
           tasks s ! w = Interceptor cw Queued \<and>
           tasks s' ! w = Interceptor cw (Released (Inl error)) \<and>
           step env s' (Resume w now') =
             Some (set_task w (Interceptor cw (Settled (Inl (reject_handler env error)))) s')"
        by blast
    qed
    have msg: "err_message (refresh_Error error) =
          ''Unable to refresh access token for request due to token refresh error: '' @
          err_message error"
      by (simp add: refresh_Error_def new_Error_def)
    have d: "distinct (queue s)" using inv by (simp add: coordinated_def)
    from st ls(1,2,3,5) pending waiters msg d show ?thesis by simp
  qed
  have resolving: "\<exists>token. rs = Finished (Inr token)"
    if "i < length (tasks s)" "tasks s ! i = Interceptor ci (Refreshing rs)"
      "step env s ev = Some s1" "tasks s1 ! i = Interceptor ci (Settled (Inr cfg))"
    using leader_resolves[OF inv that(3,1,2,4)] .
  from failing resolving
  show "(l < length (tasks s) \<and>
      tasks s ! l = Interceptor c (Refreshing (Finished (Inl error))) \<longrightarrow>
        distinct (queue s) \<and>
        (\<exists>s'. step env s (Resume l now) = Some s' \<and>
           tasks s' ! l = Interceptor c (Settled (Inl (refresh_Error error))) \<and>
           err_message (refresh_Error error) =
             ''Unable to refresh access token for request due to token refresh error: '' @
             err_message error \<and>
           queue s' = [] \<and> \<not> isRefreshing s' \<and> storage s' = storage s \<and>
           (\<forall>k<length (tasks s'). \<not> queued (tasks s' ! k)) \<and>
           (\<forall>w\<in>set (queue s). \<exists>cw.
              tasks s ! w = Interceptor cw Queued \<and>
              tasks s' ! w = Interceptor cw (Released (Inl error)) \<and>
              step env s' (Resume w now') =
                Some (set_task w (Interceptor cw (Settled (Inl (reject_handler env error))))
                        s')))) \<and>
     (i < length (tasks s) \<and> tasks s ! i = Interceptor ci (Refreshing rs) \<and>
      step env s ev = Some s1 \<and> tasks s1 ! i = Interceptor ci (Settled (Inr cfg)) \<longrightarrow>
        (\<exists>token. rs = Finished (Inr token)))"
    by blast
qed

text \<open>
  C6, amended, in the sample run: the callback is rejected with a network error, the
  refreshing call rejects with the wrapping error and the first waiter with the refresh
  error.
\<close>

theorem refresh_failure_propagation_witness:
  "run sample_env (initial stale_pair) (arrivals @ [Callback 0 (Inl network_Error)]) =
     Some (sample_state stale_pair True [1, 2]
             (Refreshing (Finished (Inl (new_Error ''Error: Network Error'')))) Queued Queued) \<and>
   step sample_env
      (sample_state stale_pair True [1, 2]
         (Refreshing (Finished (Inl (new_Error ''Error: Network Error'')))) Queued Queued)
      (Resume 0 1000000) =
     Some (sample_state stale_pair False []
             (Settled (Inl (refresh_Error (new_Error ''Error: Network Error''))))
             (Released (Inl (new_Error ''Error: Network Error'')))
             (Released (Inl (new_Error ''Error: Network Error'')))) \<and>
   step sample_env
      (sample_state stale_pair False []
             (Settled (Inl (refresh_Error (new_Error ''Error: Network Error''))))
             (Released (Inl (new_Error ''Error: Network Error'')))
             (Released (Inl (new_Error ''Error: Network Error''))))
      (Resume 1 1000000) =
     Some (sample_state stale_pair False []
             (Settled (Inl (refresh_Error (new_Error ''Error: Network Error''))))
             (Settled (Inl (new_Error ''Error: Network Error'')))
             (Released (Inl (new_Error ''Error: Network Error''))))"
  using refresh_failure_propagation
      [where env = sample_env and st = stale_pair
         and evs = "arrivals @ [Callback 0 (Inl network_Error)]"
         and s = "sample_state stale_pair True [1, 2]
             (Refreshing (Finished (Inl (new_Error ''Error: Network Error'')))) Queued Queued"
         and l = 0 and c = request_a and error = "new_Error ''Error: Network Error''"
         and now = 1000000 and now' = 1000000 and i = 0 and ci = request_a
         and rs = "Finished (Inl (new_Error ''Error: Network Error''))"
         and ev = "Resume 0 1000000"
         and ?s1.0 = "sample_state stale_pair False []
             (Settled (Inl (refresh_Error (new_Error ''Error: Network Error''))))
             (Released (Inl (new_Error ''Error: Network Error'')))
             (Released (Inl (new_Error ''Error: Network Error'')))"]
    run_failed step_decline
  by (simp add: sample_state_def set_task_def sample_env_def)

text \<open>
  C8. If \<^verbatim>\<open>requestRefresh\<close> resolves to a value that is neither a string nor an object with
  an \<open>accessToken\<close> property, the refresh fails with the protocol-violation error (wrapped once
  by the catch block), and the store is left as it was. In the interceptor no store
  operation is issued, the error reaches the caller inside the interceptor's own error, and
  every queued waiter is rejected with it; a direct call finishes with it as well.
\<close>

theorem protocol_violation:
  "\<not> typeof_string v \<and> (\<forall>fs. v = JObj fs \<longrightarrow> ''accessToken'' \<notin> fst ` set fs) \<longrightarrow>
     (getRefreshToken st = Inr rtoken \<and> truthy rtoken \<and> requestRefresh rtoken = Inr v \<longrightarrow>
        refreshToken requestRefresh st =
          (st, Inl (new_Error (String_of_error protocol_Error)))) \<and>
     (run env (initial st0) evs = Some s \<and> l < length (tasks s) \<and>
      tasks s ! l = Interceptor c (Refreshing (AwaitCallback rt)) \<longrightarrow>
        (\<exists>s1 s2.
           step env s (Callback l (Inr v)) = Some s1 \<and>
           tasks s1 ! l =
             Interceptor c
               (Refreshing (Finished (Inl (new_Error (String_of_error protocol_Error))))) \<and>
           storage s1 = storage s \<and> queue s1 = queue s \<and>
           step env s1 (Resume l now) = Some s2 \<and>
           storage s2 = storage s \<and>
           tasks s2 ! l =
             Interceptor c
               (Settled (Inl (refresh_Error (new_Error (String_of_error protocol_Error))))) \<and>
           (\<forall>w\<in>set (queue s). \<exists>cw.
              tasks s2 ! w =
                Interceptor cw
                  (Released (Inl (new_Error (String_of_error protocol_Error))))))) \<and>
     (d < length (tasks s) \<and> tasks s ! d = Direct (AwaitCallback rt) \<longrightarrow>
        step env s (Callback d (Inr v)) =
          Some (set_task d
                  (Direct (Finished (Inl (new_Error (String_of_error protocol_Error))))) s))"
proof
  let ?E = "new_Error (String_of_error protocol_Error)"
  assume v: "\<not> typeof_string v \<and> (\<forall>fs. v = JObj fs \<longrightarrow> ''accessToken'' \<notin> fst ` set fs)"
  then have ac: "after_callback (Inr v) = Finished (Inl ?E)"
    and no: "\<not> (typeof_object v \<and> truthy (get_prop v ''accessToken''))"
    using unrecognised_shape by blast+
  have seq: "refreshToken requestRefresh st = (st, Inl ?E)"
    if "getRefreshToken st = Inr rtoken" "truthy rtoken" "requestRefresh rtoken = Inr v"
    using that v no
    by (simp add: refreshToken_def refresh_failed_def protocol_Error_def new_Error_def)
  have conc: "\<exists>s1 s2.
           step env s (Callback l (Inr v)) = Some s1 \<and>
           tasks s1 ! l = Interceptor c (Refreshing (Finished (Inl ?E))) \<and>
           storage s1 = storage s \<and> queue s1 = queue s \<and>
           step env s1 (Resume l now) = Some s2 \<and>
           storage s2 = storage s \<and>
           tasks s2 ! l = Interceptor c (Settled (Inl (refresh_Error ?E))) \<and>
           (\<forall>w\<in>set (queue s). \<exists>cw. tasks s2 ! w = Interceptor cw (Released (Inl ?E)))"
    if r: "run env (initial st0) evs = Some s" and l: "l < length (tasks s)"
      and t: "tasks s ! l = Interceptor c (Refreshing (AwaitCallback rt))"
  proof -
    let ?s1 = "set_task l (Interceptor c (Refreshing (Finished (Inl ?E)))) s"
    from r have inv: "coordinated s" by (rule reachable_invariants)
    have st1: "step env s (Callback l (Inr v)) = Some ?s1"
      using l t ac by simp
    from inv st1 have inv1: "coordinated ?s1" by (rule coordinated_step)
    have l1: "l < length (tasks ?s1)"
      and t1: "tasks ?s1 ! l = Interceptor c (Refreshing (Finished (Inl ?E)))"
      using l by simp_all
    from l1 t1 obtain s2 where st2: "step env ?s1 (Resume l now) = Some s2"
      by simp
    note ls = leader_settles[OF inv1 l1 t1 st2]
    from ls(6) have "\<forall>w\<in>set (queue s). \<exists>cw. tasks s2 ! w = Interceptor cw (Released (Inl ?E))"
      by auto
    with st1 st2 ls(3,5) t1 show ?thesis by auto
  qed
  have direct: "step env s (Callback d (Inr v)) = Some (set_task d (Direct (Finished (Inl ?E))) s)"
    if "d < length (tasks s)" "tasks s ! d = Direct (AwaitCallback rt)"
    using that ac by simp
  from seq conc direct
  show "(getRefreshToken st = Inr rtoken \<and> truthy rtoken \<and> requestRefresh rtoken = Inr v \<longrightarrow>
        refreshToken requestRefresh st = (st, Inl ?E)) \<and>
     (run env (initial st0) evs = Some s \<and> l < length (tasks s) \<and>
      tasks s ! l = Interceptor c (Refreshing (AwaitCallback rt)) \<longrightarrow>
        (\<exists>s1 s2.
           step env s (Callback l (Inr v)) = Some s1 \<and>
           tasks s1 ! l = Interceptor c (Refreshing (Finished (Inl ?E))) \<and>
           storage s1 = storage s \<and> queue s1 = queue s \<and>
           step env s1 (Resume l now) = Some s2 \<and>
           storage s2 = storage s \<and>
           tasks s2 ! l = Interceptor c (Settled (Inl (refresh_Error ?E))) \<and>
           (\<forall>w\<in>set (queue s). \<exists>cw.
              tasks s2 ! w = Interceptor cw (Released (Inl ?E))))) \<and>
     (d < length (tasks s) \<and> tasks s ! d = Direct (AwaitCallback rt) \<longrightarrow>
        step env s (Callback d (Inr v)) = Some (set_task d (Direct (Finished (Inl ?E))) s))"
    by blast
qed

text \<open>
  C8, for a number and for an object without the property, and in the sample run for null.
\<close>

theorem protocol_violation_witness:
  "refreshToken (\<lambda>r. Inr (JNum 5)) stale_pair =
     (stale_pair,
      Inl (new_Error
        ''Error: requestRefresh must either return a string or an object with an accessToken'')) \<and>
   refreshToken (\<lambda>r. Inr (JObj [(''token'', JStr ''t'')])) stale_pair =
     (stale_pair,
      Inl (new_Error
        ''Error: requestRefresh must either return a string or an object with an accessToken'')) \<and>
   run sample_env (initial stale_pair) (arrivals @ [Callback 0 (Inr JNull), Resume 0 1000000]) =
     Some (sample_state stale_pair False []
             (Settled (Inl (refresh_Error (new_Error
                ''Error: requestRefresh must either return a string or an object with an accessToken''))))
             (Released (Inl (new_Error
                ''Error: requestRefresh must either return a string or an object with an accessToken'')))
             (Released (Inl (new_Error
                ''Error: requestRefresh must either return a string or an object with an accessToken''))))"
  using protocol_violation
      [where v = "JNum 5" and st = stale_pair and rtoken = "JStr ''r1''"
         and requestRefresh = "\<lambda>r. Inr (JNum 5)" and env = sample_env and ?st0.0 = stale_pair
         and evs = "[]" and s = "initial stale_pair" and l = 0 and d = 0]
    protocol_violation
      [where v = "JObj [(''token'', JStr ''t'')]" and st = stale_pair and rtoken = "JStr ''r1''"
         and requestRefresh = "\<lambda>r. Inr (JObj [(''token'', JStr ''t'')])" and env = sample_env
         and ?st0.0 = stale_pair and evs = "[]" and s = "initial stale_pair" and l = 0 and d = 0]
    protocol_violation
      [where v = JNull and st = stale_pair and rtoken = "JStr ''r1''"
         and requestRefresh = "\<lambda>r. Inr JNull" and env = sample_env and ?st0.0 = stale_pair
         and evs = arrivals
         and s = "sample_state stale_pair True [1, 2]
             (Refreshing (AwaitCallback (JStr ''r1''))) Queued Queued"
         and l = 0 and c = request_a and rt = "JStr ''r1''" and now = 1000000 and d = 0]
    run_arrivals
  by (simp add: run_append stale_pair_simps)
     (simp add: sample_defs)

text \<open>
  C10. A direct call of \<^verbatim>\<open>refreshTokenIfNeeded\<close> starts without touching the coordinator
  state, and none of its steps writes \<^verbatim>\<open>isRefreshing\<close> or the queue or depends on them: with
  any other flag and queue the step does the same. So two direct calls may both invoke
  \<^verbatim>\<open>requestRefresh\<close>, as in the sample run, where both invocations are outstanding at once.
\<close>

theorem refreshTokenIfNeeded_outside_coordinator:
  "step env s Call_refreshTokenIfNeeded =
     Some (s\<lparr>tasks := tasks s @ [Direct (AwaitStorage GetItem L_getAccessToken)]\<rparr>) \<and>
   (i < length (tasks s) \<and> tasks s ! i = Direct rs \<and>
    (ev = Storage_done i \<or> ev = Resume i now \<or> ev = Callback i outcome) \<and>
    step env s ev = Some s' \<longrightarrow>
      isRefreshing s' = isRefreshing s \<and> queue s' = queue s \<and>
      (\<exists>rs'. tasks s' = (tasks s)[i := Direct rs']) \<and>
      step env (s\<lparr>isRefreshing := b, queue := q\<rparr>) ev =
        Some (s'\<lparr>isRefreshing := b, queue := q\<rparr>)) \<and>
   run sample_env (initial stale_pair) two_direct_calls =
     Some \<lparr>storage = stale_pair, isRefreshing = False, queue = [],
           tasks = [Direct (AwaitCallback (JStr ''r1'')), Direct (AwaitCallback (JStr ''r1''))],
           calls = [(0, JStr ''r1''), (1, JStr ''r1'')]\<rparr>"
proof -
  have frame: "isRefreshing s' = isRefreshing s \<and> queue s' = queue s \<and>
      (\<exists>rs'. tasks s' = (tasks s)[i := Direct rs']) \<and>
      step env (s\<lparr>isRefreshing := b, queue := q\<rparr>) ev =
        Some (s'\<lparr>isRefreshing := b, queue := q\<rparr>)"
    if i: "i < length (tasks s)" and t: "tasks s ! i = Direct rs"
      and ev: "ev = Storage_done i \<or> ev = Resume i now \<or> ev = Callback i outcome"
      and st: "step env s ev = Some s'"
    using ev
  proof (elim disjE)
    assume "ev = Storage_done i"
    with i t st direct_storage_done[where i = i and rs = rs and s = s and s' = s' and b = b and q = q] show ?thesis by simp
  next
    assume "ev = Resume i now"
    with i t st direct_resume[where env = env and now = now and i = i and rs = rs and s = s and s' = s' and b = b and q = q] show ?thesis by simp
  next
    assume "ev = Callback i outcome"
    with i t st direct_callback[where outcome = outcome and i = i and rs = rs and s = s and s' = s' and b = b and q = q] show ?thesis by simp
  qed
  with run_two_direct_calls show ?thesis by simp
qed

text \<open>
  C10, for a direct call that resumes with the refresh token while the flag is set and a
  waiter is queued: it invokes the callback all the same.
\<close>

theorem refreshTokenIfNeeded_outside_coordinator_witness:
  "step sample_env
      (\<lparr>storage = stale_pair, isRefreshing = True, queue = [7],
        tasks = [Direct (StorageDone stale_pair L_getRefreshToken)], calls = []\<rparr>)
      (Resume 0 1000000) =
     Some \<lparr>storage = stale_pair, isRefreshing = True, queue = [7],
           tasks = [Direct (AwaitCallback (JStr ''r1''))], calls = [(0, JStr ''r1'')]\<rparr> \<and>
   step sample_env
      (\<lparr>storage = stale_pair, isRefreshing = False, queue = [],
        tasks = [Direct (StorageDone stale_pair L_getRefreshToken)], calls = []\<rparr>)
      (Resume 0 1000000) =
     Some \<lparr>storage = stale_pair, isRefreshing = False, queue = [],
           tasks = [Direct (AwaitCallback (JStr ''r1''))], calls = [(0, JStr ''r1'')]\<rparr> \<and>
   run sample_env (initial stale_pair) two_direct_calls =
     Some \<lparr>storage = stale_pair, isRefreshing = False, queue = [],
           tasks = [Direct (AwaitCallback (JStr ''r1'')), Direct (AwaitCallback (JStr ''r1''))],
           calls = [(0, JStr ''r1''), (1, JStr ''r1'')]\<rparr>"
  using refreshTokenIfNeeded_outside_coordinator
      [where env = sample_env
         and s = "\<lparr>storage = stale_pair, isRefreshing = True, queue = [7],
                   tasks = [Direct (StorageDone stale_pair L_getRefreshToken)], calls = []\<rparr>"
         and i = 0 and rs = "StorageDone stale_pair L_getRefreshToken"
         and ev = "Resume 0 1000000" and now = 1000000
         and s' = "\<lparr>storage = stale_pair, isRefreshing = True, queue = [7],
                   tasks = [Direct (AwaitCallback (JStr ''r1''))], calls = [(0, JStr ''r1'')]\<rparr>"
         and b = False and q = "[]"]
  by (simp add: stale_pair_simps set_task_def)

end
